theory Spec2Isabelle
  imports Main "HOL-Library.Word" "HOL-Library.While_Combinator"
begin

unbundle bit_operations_syntax

section \<open>Data model\<close>

text \<open>
  The parser of \<^verbatim>\<open>src/common/MessageParser.cpp\<close> works on bytes (\<^verbatim>\<open>uint8_t\<close>) and on
  32-bit unsigned counters (\<^verbatim>\<open>uint32_t\<close>); its two local offsets are \<^verbatim>\<open>int\<close>, kept here
  as 32-bit words and read in two's complement with \<open>sint\<close> where they are used.
\<close>

type_synonym byte = "8 word"
type_synonym u32 = "32 word"

text \<open>
  Modelled from the spec: \<^verbatim>\<open>MessageHeader\<close> (declared in the absent NetworkTypes.h) is an
  8-byte record, bytes 0..3 the message type and bytes 4..7 the payload length, each a
  4-byte unsigned integer.
\<close>

record MessageHeader =
  messageType :: u32
  messageLength :: u32

text \<open>
  Modelled from the spec: \<^verbatim>\<open>MessageHeader::Clear\<close> (absent NetworkTypes.h) resets the header
  to the unset sentinel, taken as all zero.
\<close>

definition Clear :: MessageHeader where
  "Clear = \<lparr>messageType = 0, messageLength = 0\<rparr>"

text \<open>
  Modelled from the spec: a 4-byte unsigned integer in memory (the layout of the fields of
  the absent \<^verbatim>\<open>MessageHeader\<close>). The byte order is the one of the machine; least
  significant byte first is taken here.
\<close>

definition le32 :: "byte list \<Rightarrow> u32" where
  "le32 bs = foldr (\<lambda>b w. ucast b OR push_bit 8 w) (take 4 bs) 0"

text \<open>Modelled from the spec: the same 4-byte layout, written.\<close>

definition bytes32 :: "u32 \<Rightarrow> byte list" where
  "bytes32 w = [ucast w, ucast (drop_bit 8 w), ucast (drop_bit 16 w), ucast (drop_bit 24 w)]"

text \<open>
  Modelled from the spec: the layout of the absent \<^verbatim>\<open>MessageHeader\<close>, which the
  \<^verbatim>\<open>memcpy\<close> of 8 bytes into \<^verbatim>\<open>m_header\<close> at line 47 of MessageParser.cpp reads: type in
  bytes 0..3, length in bytes 4..7.
\<close>

definition decodeHeader :: "byte list \<Rightarrow> MessageHeader" where
  "decodeHeader bs = \<lparr>messageType = le32 (take 4 bs), messageLength = le32 (take 4 (drop 4 bs))\<rparr>"

text \<open>
  Modelled from the spec: the 8 bytes of a header on the wire, as the sender's
  \<^verbatim>\<open>memcpy\<close> of the absent \<^verbatim>\<open>MessageHeader\<close> writes them (MessageParserTest.cpp, line 170).
\<close>

definition encodeHeader :: "MessageHeader \<Rightarrow> byte list" where
  "encodeHeader h = bytes32 (messageType h) @ bytes32 (messageLength h)"

text \<open>
  Modelled from the spec: \<^verbatim>\<open>NetworkMessage\<close> (absent NetworkTypes.h) is the header plus
  the owned payload bytes.
\<close>

record NetworkMessage =
  header :: MessageHeader
  messageData :: "byte list"

text \<open>The frame of a message on the wire: header, then the payload.\<close>

definition encodeMessage :: "NetworkMessage \<Rightarrow> byte list" where
  "encodeMessage m = encodeHeader (header m) @ messageData m"

text \<open>
  Modelled from the spec: the class declaration (MessageParser.h) is absent. The members
  are the ones MessageParser.cpp uses: two accumulator buffers, the decoded header, the
  flag \<^verbatim>\<open>m_isHeaderSet\<close> and the cursor \<^verbatim>\<open>m_totalBytesParsed\<close>, compared with the
  \<^verbatim>\<open>uint32_t size\<close>. \<^verbatim>\<open>m_activeBuffer\<close> points at one of the two buffers:
  \<open>m_activeIsFirst\<close> says which.
\<close>

record MessageParser =
  m_firstBuffer :: "byte list"
  m_secondBuffer :: "byte list"
  m_activeIsFirst :: bool
  m_header :: MessageHeader
  m_isHeaderSet :: bool
  m_totalBytesParsed :: u32

text \<open>
  Modelled from the spec: the initial values of the members declared in the absent
  MessageParser.h, "both buffers empty", no header pending, the cursor at 0. The
  constructor (line 18) sets \<^verbatim>\<open>m_activeBuffer(&m_firstBuffer)\<close>.
\<close>

definition newParser :: MessageParser where
  "newParser = \<lparr>m_firstBuffer = [], m_secondBuffer = [], m_activeIsFirst = True,
     m_header = Clear, m_isHeaderSet = False, m_totalBytesParsed = 0\<rparr>"

text \<open>
  A read outside the memory behind \<^verbatim>\<open>rawData\<close> is undefined behaviour in C++; the model
  stops there with this error.
\<close>

datatype error = OutOfBounds

section \<open>The accumulator buffer\<close>

text \<open>
  Modelled from the spec: the buffer class is absent. \<^verbatim>\<open>GetSize\<close> is the number of bytes
  the buffer holds, as the 32-bit value the parser compares and adds; \<^verbatim>\<open>ClearData\<close>
  empties the buffer (the empty list below).
\<close>

definition GetSize :: "byte list \<Rightarrow> u32" where
  "GetSize buf = word_of_nat (length buf)"

text \<open>
  Modelled from the spec: \<^verbatim>\<open>SetData(source, count)\<close> of the absent buffer class appends
  \<open>count\<close> bytes read from the source at the buffer's current size. The source is
  \<^verbatim>\<open>rawData + offset\<close>, where \<open>rawData\<close> is the memory the caller's pointer gives access
  to: the read may go beyond \<^verbatim>\<open>size\<close> as long as it stays in that memory, and a read that
  leaves it, a negative offset or a negative count is \<open>OutOfBounds\<close>.
\<close>

definition SetData :: "byte list \<Rightarrow> byte list \<Rightarrow> int \<Rightarrow> int \<Rightarrow> error + byte list" where
  "SetData buf rawData offset count =
     (if offset < 0 \<or> count < 0 \<or> int (length rawData) < offset + count then Inl OutOfBounds
      else Inr (buf @ take (nat count) (drop (nat offset) rawData)))"

text \<open>The buffer \<^verbatim>\<open>m_activeBuffer\<close> points at, read and written.\<close>

definition activeBuffer :: "MessageParser \<Rightarrow> byte list" where
  "activeBuffer p = (if m_activeIsFirst p then m_firstBuffer p else m_secondBuffer p)"

definition setActiveBuffer :: "byte list \<Rightarrow> MessageParser \<Rightarrow> MessageParser" where
  "setActiveBuffer buf p =
     (if m_activeIsFirst p then p\<lparr>m_firstBuffer := buf\<rparr> else p\<lparr>m_secondBuffer := buf\<rparr>)"

text \<open>Lines 88 to 100: the other buffer becomes active, the one left is cleared.\<close>

definition SwapBuffer :: "MessageParser \<Rightarrow> MessageParser" where
  "SwapBuffer p =
     (if m_activeIsFirst p then p\<lparr>m_activeIsFirst := False, m_firstBuffer := []\<rparr>
      else p\<lparr>m_activeIsFirst := True, m_secondBuffer := []\<rparr>)"

section \<open>ParseMessage\<close>

text \<open>Line 15.\<close>

definition s_headerSize :: u32 where
  "s_headerSize = 8"

text \<open>
  The state of one call: the parser, the two locals \<^verbatim>\<open>headerOffset\<close> and
  \<^verbatim>\<open>messageOffset\<close>, and the caller's output vector.
\<close>

record LoopState =
  parser :: MessageParser
  headerOffset :: u32
  messageOffset :: u32
  messages :: "NetworkMessage list"

text \<open>
  Lines 34 to 56: the block run while no header is set. \<open>sz\<close> is the parameter
  \<^verbatim>\<open>size\<close>; the count handed to \<^verbatim>\<open>SetData\<close> is the unsigned minimum of line 41.
\<close>

definition headerPhase :: "byte list \<Rightarrow> u32 \<Rightarrow> LoopState \<Rightarrow> error + LoopState" where
  "headerPhase rawData sz ls =
     (let p = parser ls;
          startSize = GetSize (activeBuffer p)
      in case SetData (activeBuffer p) rawData (sint (messageOffset ls))
                (uint (min (sz - m_totalBytesParsed p) (s_headerSize - startSize))) of
           Inl e \<Rightarrow> Inl e
         | Inr buf \<Rightarrow>
             let p1 = setActiveBuffer buf p;
                 p2 = p1\<lparr>m_totalBytesParsed := m_totalBytesParsed p1 + GetSize buf\<rparr>
             in if GetSize buf = s_headerSize
                then Inr (ls\<lparr>parser := SwapBuffer (p2\<lparr>m_header := decodeHeader buf,
                                                       m_isHeaderSet := True\<rparr>),
                             headerOffset := (s_headerSize - startSize) + messageOffset ls\<rparr>)
                else Inr (ls\<lparr>parser := p2\<rparr>))"

text \<open>Line 59: the number of payload bytes the next copy takes.\<close>

definition sizeToCopy :: "u32 \<Rightarrow> MessageParser \<Rightarrow> u32" where
  "sizeToCopy sz p = min sz (messageLength (m_header p) - GetSize (activeBuffer p))"

text \<open>
  Lines 59 to 80: the block run when a header is set and the cursor is below \<^verbatim>\<open>size\<close>.
  \<^verbatim>\<open>sizeToCopy\<close> is an \<^verbatim>\<open>int\<close>: the count handed to \<^verbatim>\<open>SetData\<close> is its signed value.
\<close>

definition payloadPhase :: "byte list \<Rightarrow> u32 \<Rightarrow> LoopState \<Rightarrow> error + LoopState" where
  "payloadPhase rawData sz ls =
     (let p = parser ls;
          n = sizeToCopy sz p;
          ls1 = ls\<lparr>messageOffset := n + headerOffset ls\<rparr>
      in case SetData (activeBuffer p) rawData (sint (headerOffset ls)) (sint n) of
           Inl e \<Rightarrow> Inl e
         | Inr buf \<Rightarrow>
             let p1 = setActiveBuffer buf p;
                 p2 = p1\<lparr>m_totalBytesParsed := m_totalBytesParsed p1 + n\<rparr>
             in if GetSize buf = messageLength (m_header p2)
                then Inr (ls1\<lparr>parser := SwapBuffer (p2\<lparr>m_isHeaderSet := False, m_header := Clear\<rparr>),
                              messages := messages ls1 @
                                [\<lparr>header = m_header p2,
                                  messageData = take (unat (messageLength (m_header p2))) buf\<rparr>]\<rparr>)
                else Inr (ls1\<lparr>parser := p2\<rparr>))"

text \<open>Lines 33 to 82: one iteration of the \<^verbatim>\<open>while\<close> loop.\<close>

definition loopBody :: "byte list \<Rightarrow> u32 \<Rightarrow> LoopState \<Rightarrow> error + LoopState" where
  "loopBody rawData sz ls =
     (case (if \<not> m_isHeaderSet (parser ls) then headerPhase rawData sz ls else Inr ls) of
        Inl e \<Rightarrow> Inl e
      | Inr ls1 \<Rightarrow>
          if m_isHeaderSet (parser ls1) \<and> m_totalBytesParsed (parser ls1) < sz
          then payloadPhase rawData sz ls1 else Inr ls1)"

text \<open>
  Line 32: the loop runs while \<^verbatim>\<open>m_totalBytesParsed < size\<close>; an undefined read ends the
  run. \<open>None\<close> is a loop that never ends.
\<close>

definition loopCond :: "u32 \<Rightarrow> error + LoopState \<Rightarrow> bool" where
  "loopCond sz s = (case s of Inl e \<Rightarrow> False | Inr ls \<Rightarrow> m_totalBytesParsed (parser ls) < sz)"

definition loopStep :: "byte list \<Rightarrow> u32 \<Rightarrow> error + LoopState \<Rightarrow> error + LoopState" where
  "loopStep rawData sz s = (case s of Inl e \<Rightarrow> Inl e | Inr ls \<Rightarrow> loopBody rawData sz ls)"

definition parseLoop :: "byte list \<Rightarrow> u32 \<Rightarrow> LoopState \<Rightarrow> (error + LoopState) option" where
  "parseLoop rawData sz ls = while_option (loopCond sz) (loopStep rawData sz) (Inr ls)"

text \<open>
  Lines 28 to 86. The result is the returned flag, the output vector and the parser after
  the call.
\<close>

definition ParseMessage ::
  "byte list \<Rightarrow> u32 \<Rightarrow> NetworkMessage list \<Rightarrow> MessageParser \<Rightarrow>
     (error + bool \<times> NetworkMessage list \<times> MessageParser) option" where
  "ParseMessage rawData sz msgs p =
     (case parseLoop rawData sz
             \<lparr>parser = p, headerOffset = 0, messageOffset = 0, messages = msgs\<rparr> of
        None \<Rightarrow> None
      | Some (Inl e) \<Rightarrow> Some (Inl e)
      | Some (Inr ls) \<Rightarrow>
          Some (Inr (messages ls \<noteq> [], messages ls, (parser ls)\<lparr>m_totalBytesParsed := 0\<rparr>)))"

text \<open>
  A caller that hands over one chunk per call, the chunk being all the memory the pointer
  gives access to (as the \<^verbatim>\<open>std::string\<close> the tests of MessageParserTest.cpp pass), and
  that stops at the first call that does not return.
\<close>

definition parseChunk ::
  "byte list \<Rightarrow> NetworkMessage list \<Rightarrow> MessageParser \<Rightarrow>
     (error + bool \<times> NetworkMessage list \<times> MessageParser) option" where
  "parseChunk chunk msgs p = ParseMessage chunk (word_of_nat (length chunk)) msgs p"

fun parseChunks ::
  "byte list list \<Rightarrow> NetworkMessage list \<Rightarrow> MessageParser \<Rightarrow>
     (error + NetworkMessage list \<times> MessageParser) option" where
  "parseChunks [] msgs p = Some (Inr (msgs, p))"
| "parseChunks (c # cs) msgs p =
     (case parseChunk c msgs p of
        None \<Rightarrow> None
      | Some (Inl e) \<Rightarrow> Some (Inl e)
      | Some (Inr (b, msgs', p')) \<Rightarrow> parseChunks cs msgs' p')"

section \<open>Reachable parsers and their invariant\<close>

text \<open>
  The parsers a program can hold: the constructed one, and the one left by a call that
  returned.
\<close>

inductive reachable :: "MessageParser \<Rightarrow> bool" where
  fresh: "reachable newParser"
| call: "reachable p \<Longrightarrow> ParseMessage rawData sz msgs p = Some (Inr (b, msgs', p')) \<Longrightarrow>
         reachable p'"

text \<open>
  What holds of the parser between loop iterations: with a header set, the second buffer
  is the active one and collects a payload still short of \<open>messageLength\<close> (or nothing, for
  a length of 0); with none, the first buffer is active and holds fewer than 8 header bytes.
\<close>

definition parserInv :: "MessageParser \<Rightarrow> bool" where
  "parserInv p =
     (if m_isHeaderSet p
      then \<not> m_activeIsFirst p \<and> m_firstBuffer p = [] \<and>
           (length (m_secondBuffer p) < unat (messageLength (m_header p)) \<or>
            m_secondBuffer p = [] \<and> messageLength (m_header p) = 0)
      else m_activeIsFirst p \<and> m_secondBuffer p = [] \<and> length (m_firstBuffer p) < 8 \<and>
           m_header p = Clear)"

text \<open>
  What every loop iteration decreases, in lexicographic order: the distance of the next
  read from the end of the offsets' range, the header flag, and the bytes the buffer in
  use still lacks. The next read starts at \<^verbatim>\<open>headerOffset\<close> when a header is set and at
  \<^verbatim>\<open>messageOffset\<close> otherwise.
\<close>

definition readOffset :: "LoopState \<Rightarrow> u32" where
  "readOffset ls = (if m_isHeaderSet (parser ls) then headerOffset ls else messageOffset ls)"

definition bytesMissing :: "LoopState \<Rightarrow> nat" where
  "bytesMissing ls =
     (if m_isHeaderSet (parser ls)
      then unat (messageLength (m_header (parser ls))) - length (m_secondBuffer (parser ls))
      else 8 - length (m_firstBuffer (parser ls)))"

definition loopRank :: "(error + LoopState) \<Rightarrow> nat" where
  "loopRank s = (case s of Inl e \<Rightarrow> 0 | Inr ls \<Rightarrow> 4294967296 - unat (readOffset ls))"

definition loopFlag :: "(error + LoopState) \<Rightarrow> nat" where
  "loopFlag s = (case s of Inl e \<Rightarrow> 0 | Inr ls \<Rightarrow> if m_isHeaderSet (parser ls) then 1 else 0)"

definition loopMissing :: "(error + LoopState) \<Rightarrow> nat" where
  "loopMissing s = (case s of Inl e \<Rightarrow> 0 | Inr ls \<Rightarrow> bytesMissing ls)"

section \<open>Fixtures\<close>

text \<open>
  The fixture of MessageParserTest.cpp: \<^verbatim>\<open>s_header{ MessageId::Attack, 14 }\<close> and the payload
  \<^verbatim>\<open>'a'..'n'\<close>. The number behind \<^verbatim>\<open>MessageId::Attack\<close> is in the absent NetworkTypes.h; 1 is
  taken, and nothing below depends on it.
\<close>

definition s_header :: MessageHeader where
  "s_header = \<lparr>messageType = 1, messageLength = 14\<rparr>"

definition s_messageData :: "byte list" where
  "s_messageData = [97, 98, 99, 100, 101, 102, 103, 104, 105, 106, 107, 108, 109, 110]"

definition s_message :: NetworkMessage where
  "s_message = \<lparr>header = s_header, messageData = s_messageData\<rparr>"

text \<open>Two more messages: one byte of payload, and none.\<close>

definition shortMessage :: NetworkMessage where
  "shortMessage = \<lparr>header = \<lparr>messageType = 1, messageLength = 1\<rparr>, messageData = [97]\<rparr>"

definition emptyMessage :: NetworkMessage where
  "emptyMessage = \<lparr>header = \<lparr>messageType = 1, messageLength = 0\<rparr>, messageData = []\<rparr>"

text \<open>
  A message whose header declares the length of its payload, and the frames of a list of
  messages back to back.
\<close>

definition wellFormed :: "NetworkMessage \<Rightarrow> bool" where
  "wellFormed m \<longleftrightarrow> length (messageData m) = unat (messageLength (header m))"

definition encodeMessages :: "NetworkMessage list \<Rightarrow> byte list" where
  "encodeMessages ms = concat (map encodeMessage ms)"

text \<open>A stream cut into consecutive chunks of the given sizes.\<close>

fun chunksOf :: "nat list \<Rightarrow> byte list \<Rightarrow> byte list list" where
  "chunksOf [] stream = []"
| "chunksOf (n # ns) stream = take n stream # chunksOf ns (drop n stream)"

text \<open>
  The parser right after the header \<open>h\<close> has been decoded from a fresh state: header set,
  second buffer active and empty.
\<close>

definition awaitingPayload :: "MessageHeader \<Rightarrow> MessageParser" where
  "awaitingPayload h = newParser\<lparr>m_activeIsFirst := False, m_header := h, m_isHeaderSet := True\<rparr>"

section \<open>Word arithmetic and the header codec\<close>


lemma unat_min_word: "unat (min a b) = min (unat a) (unat (b::'a::len word))"
  by (simp add: min_def word_le_nat_alt)

lemma unat_of_nat_u32: "n < 4294967296 \<Longrightarrow> unat (word_of_nat n :: u32) = n"
  by (simp add: unat_of_nat)

lemma unat_8_minus: "l < 8 \<Longrightarrow> unat ((8::u32) - word_of_nat l) = 8 - l"
  by (simp add: unat_sub word_le_nat_alt unat_of_nat_u32)

lemma of_nat_eq_u32: "n < 4294967296 \<Longrightarrow> ((word_of_nat n :: u32) = w) = (n = unat w)"
  using unat_of_nat_u32 by force

lemma unat_sub_of_nat: "g \<le> unat (w::u32) \<Longrightarrow> unat (w - word_of_nat g) = unat w - g"
proof -
  assume g: "g \<le> unat w"
  have "unat w < 4294967296" using unsigned_less[of w] by simp
  with g have "unat (word_of_nat g :: u32) = g" by (simp add: unat_of_nat_u32)
  with g show ?thesis by (simp add: unat_sub word_le_nat_alt)
qed

lemma p31: "(2::int) ^ 31 = 2147483648"
  by simp

lemma p32: "(2::int) ^ 32 = 4294967296"
  by simp

lemma uint_lt_of_unat: "unat (w::u32) < n \<Longrightarrow> uint w < int n"
  by (metis of_nat_less_iff uint_nat)

lemma sint_31: "sint (w::u32) = signed_take_bit 31 (uint w)"
  by (simp add: sint_uint)

lemma sint_small: "unat (w::u32) < 2147483648 \<Longrightarrow> sint w = int (unat w)"
proof -
  assume "unat w < 2147483648"
  then have "uint w < int 2147483648" by (rule uint_lt_of_unat)
  then have "uint w < 2 ^ 31" by (simp only: p31 of_nat_numeral)
  moreover have "- (2 ^ 31) \<le> uint w" by (rule order_trans [of _ 0]) simp_all
  ultimately have "signed_take_bit 31 (uint w) = uint w"
    by (rule signed_take_bit_int_eq_self [rotated])
  then show ?thesis by (simp only: sint_31 uint_nat)
qed

lemma sint_nonneg_unat: "0 \<le> sint (w::u32) \<Longrightarrow> sint w = int (unat w)"
proof (cases "unat w < 2147483648")
  case True
  then show ?thesis by (rule sint_small)
next
  case False
  assume nn: "0 \<le> sint w"
  from False have "int 2147483648 \<le> int (unat w)" by (simp only: of_nat_le_iff not_less)
  then have ge: "2147483648 \<le> uint w" by (simp only: uint_nat of_nat_numeral)
  have lt: "uint w < 4294967296" using uint_bounded [of w] by simp
  have "sint w = take_bit 32 (uint w + 2 ^ 31) - 2 ^ 31"
    by (simp only: sint_31 signed_take_bit_eq_take_bit_shift) simp
  also have "take_bit 32 (uint w + 2 ^ 31) = (uint w + 2147483648) mod 4294967296"
    by (simp only: take_bit_eq_mod p31 p32)
  also have "(uint w + 2147483648) mod 4294967296 = uint w + 2147483648 - 4294967296"
    using ge lt by (simp add: mod_pos_geq)
  finally have "sint w < 0" using lt by simp
  with nn show ?thesis by simp
qed


lemma SetData_Inr:
  assumes "SetData buf rawData off c = Inr b"
  shows "0 \<le> c" and "0 \<le> off" and "length b = length buf + nat c"
    and "b = buf @ take (nat c) (drop (nat off) rawData)"
  using assms by (auto simp: SetData_def split: if_splits)

lemma headerPhase_inv:
  assumes inv: "parserInv (parser ls)" and nset: "\<not> m_isHeaderSet (parser ls)"
    and run: "headerPhase rawData sz ls = Inr ls'"
  shows "parserInv (parser ls')" and "messages ls' = messages ls"
proof -
  define p where "p = parser ls"
  define l where "l = length (m_firstBuffer p)"
  define k where "k = min (sz - m_totalBytesParsed p) (s_headerSize - GetSize (activeBuffer p))"
  from inv nset have act: "m_activeIsFirst p" and sec: "m_secondBuffer p = []" and l8: "l < 8"
    by (simp_all add: parserInv_def p_def l_def)
  have ab: "activeBuffer p = m_firstBuffer p" using act by (simp add: activeBuffer_def)
  have "unat k \<le> unat (s_headerSize - GetSize (activeBuffer p))"
    by (simp add: k_def unat_min_word)
  then have kb: "unat k \<le> 8 - l"
    using l8 by (simp add: ab s_headerSize_def GetSize_def unat_8_minus l_def)
  from run obtain buf where sd: "SetData (m_firstBuffer p) rawData (sint (messageOffset ls)) (uint k) = Inr buf"
    by (auto simp: headerPhase_def Let_def p_def [symmetric] k_def ab split: sum.splits)
  from SetData_Inr(3) [OF sd] have len: "length buf = l + unat k" by (simp add: l_def)
  with kb l8 have le8: "length buf \<le> 8" by simp
  then have g8: "(GetSize buf = s_headerSize) = (length buf = 8)"
    by (simp add: GetSize_def s_headerSize_def of_nat_eq_u32)
  show "parserInv (parser ls')" 
  proof (cases "length buf = 8")
    case True
    with run sd g8 show ?thesis
      by (auto simp: headerPhase_def Let_def p_def [symmetric] k_def ab parserInv_def setActiveBuffer_def SwapBuffer_def act sec unat_gt_0)
  next
    case False
    with run sd g8 le8 inv nset show ?thesis
      by (auto simp: headerPhase_def Let_def p_def [symmetric] k_def ab parserInv_def setActiveBuffer_def SwapBuffer_def act sec unat_gt_0)
  qed
  show "messages ls' = messages ls"
    using run by (auto simp: headerPhase_def Let_def split: sum.splits if_splits)
qed


lemma headerPhase_cursor:
  assumes inv: "parserInv (parser ls)" and nset: "\<not> m_isHeaderSet (parser ls)"
    and run: "headerPhase rawData sz ls = Inr ls'"
    and lt: "m_totalBytesParsed (parser ls) < sz" and small: "unat sz < 2147483648"
  shows "unat (m_totalBytesParsed (parser ls)) < unat (m_totalBytesParsed (parser ls'))"
proof -
  define p where "p = parser ls"
  define l where "l = length (m_firstBuffer p)"
  define k where "k = min (sz - m_totalBytesParsed p) (s_headerSize - GetSize (activeBuffer p))"
  from inv nset have act: "m_activeIsFirst p" and l8: "l < 8"
    by (simp_all add: parserInv_def p_def l_def)
  have ab: "activeBuffer p = m_firstBuffer p" using act by (simp add: activeBuffer_def)
  have u8: "unat (s_headerSize - GetSize (activeBuffer p)) = 8 - l"
    using l8 by (simp add: ab s_headerSize_def GetSize_def unat_8_minus l_def)
  have us: "unat (sz - m_totalBytesParsed p) = unat sz - unat (m_totalBytesParsed p)"
    using lt by (simp add: unat_sub word_le_nat_alt word_less_nat_alt p_def)
  have uk: "unat k = min (unat sz - unat (m_totalBytesParsed p)) (8 - l)"
    by (simp add: k_def unat_min_word u8 us)
  from run obtain buf where sd: "SetData (m_firstBuffer p) rawData (sint (messageOffset ls)) (uint k) = Inr buf"
    by (auto simp: headerPhase_def Let_def p_def [symmetric] k_def ab split: sum.splits)
  from SetData_Inr(3) [OF sd] have len: "length buf = l + unat k" by (simp add: l_def)
  from lt have "unat (m_totalBytesParsed p) < unat sz" by (simp add: word_less_nat_alt p_def)
  with uk l8 len have pos: "0 < length buf" and le8: "length buf \<le> 8" by auto
  have tot: "m_totalBytesParsed (parser ls') = m_totalBytesParsed p + GetSize buf"
    using run sd
    by (auto simp: headerPhase_def Let_def p_def [symmetric] k_def ab setActiveBuffer_def
        SwapBuffer_def act split: if_splits)
  have ug: "unat (GetSize buf) = length buf" using le8 by (simp add: GetSize_def unat_of_nat_u32)
  have "unat (m_totalBytesParsed p) + unat (GetSize buf) < 2 ^ LENGTH(32)"
    using \<open>unat (m_totalBytesParsed p) < unat sz\<close> small le8 ug by simp
  then have "unat (m_totalBytesParsed p + GetSize buf) = unat (m_totalBytesParsed p) + unat (GetSize buf)"
    by (simp only: unat_add_lem)
  with tot ug pos show ?thesis by (simp add: p_def)
qed

lemma payloadPhase_inv:
  assumes inv: "parserInv (parser ls)" and set: "m_isHeaderSet (parser ls)"
    and run: "payloadPhase rawData sz ls = Inr ls'"
  shows "parserInv (parser ls')" and "\<exists>new. messages ls' = messages ls @ new"
proof -
  define p where "p = parser ls"
  define g where "g = length (m_secondBuffer p)"
  define len where "len = messageLength (m_header p)"
  define n where "n = sizeToCopy sz p"
  from inv set have act: "\<not> m_activeIsFirst p" and fst: "m_firstBuffer p = []"
    and gl: "g < unat len \<or> g = 0 \<and> len = 0"
    by (auto simp add: parserInv_def p_def g_def len_def)
  have ab: "activeBuffer p = m_secondBuffer p" using act by (simp add: activeBuffer_def)
  from gl have gle: "g \<le> unat len" by auto
  have "unat n \<le> unat (len - word_of_nat g)"
    by (simp add: n_def sizeToCopy_def unat_min_word ab GetSize_def len_def g_def)
  with gle have nb: "unat n \<le> unat len - g" by (simp add: unat_sub_of_nat)
  from run obtain buf where sd: "SetData (m_secondBuffer p) rawData (sint (headerOffset ls)) (sint n) = Inr buf"
    by (auto simp: payloadPhase_def Let_def p_def [symmetric] n_def ab split: sum.splits)
  from SetData_Inr(1) [OF sd] have "sint n = int (unat n)" by (rule sint_nonneg_unat)
  with SetData_Inr(3) [OF sd] have blen: "length buf = g + unat n" by (simp add: g_def)
  with nb gle have ble: "length buf \<le> unat len" by simp
  have "unat len < 4294967296" using unsigned_less [of len] by simp
  with ble have full: "(GetSize buf = len) = (length buf = unat len)"
    by (simp add: GetSize_def of_nat_eq_u32)
  show "parserInv (parser ls')"
    using run sd full ble fst act set
    by (auto simp: payloadPhase_def Let_def p_def [symmetric] n_def [symmetric] ab parserInv_def
        setActiveBuffer_def SwapBuffer_def len_def split: if_splits)
  show "\<exists>new. messages ls' = messages ls @ new"
    using run by (auto simp: payloadPhase_def Let_def split: sum.splits if_splits)
qed





lemma word_neq0_of_less: "unat (a::u32) < unat sz \<Longrightarrow> sz \<noteq> 0"
  by (cases "sz = 0") simp_all

lemma sizeToCopy_zero:
  assumes "sizeToCopy sz p = 0" and "sz \<noteq> 0"
  shows "GetSize (activeBuffer p) = messageLength (m_header p)"
proof -
  from assms have "messageLength (m_header p) - GetSize (activeBuffer p) = 0"
    unfolding sizeToCopy_def min_def by (simp split: if_splits)
  then show ?thesis by simp
qed

lemma SetData_zero: "SetData buf rawData off 0 = Inr b \<Longrightarrow> b = buf"
  by (simp add: SetData_def split: if_splits)

lemma payloadPhase_total:
  assumes "payloadPhase rawData sz ls = Inr ls'"
  shows "m_totalBytesParsed (parser ls') = m_totalBytesParsed (parser ls) + sizeToCopy sz (parser ls)"
  using assms
  by (simp add: payloadPhase_def Let_def setActiveBuffer_def SwapBuffer_def
      split: sum.splits if_splits) auto


lemma payloadPhase_set:
  assumes "payloadPhase rawData sz ls = Inr ls'" and "m_isHeaderSet (parser ls')"
    and "SetData (activeBuffer (parser ls)) rawData (sint (headerOffset ls))
           (sint (sizeToCopy sz (parser ls))) = Inr buf"
  shows "GetSize buf \<noteq> messageLength (m_header (parser ls))"
  using assms
  by (auto simp add: payloadPhase_def Let_def setActiveBuffer_def SwapBuffer_def
      split: if_splits)

lemma payloadPhase_cursor:
  assumes run: "payloadPhase rawData sz ls = Inr ls'"
    and lt: "m_totalBytesParsed (parser ls) < sz" and small: "unat sz < 2147483648"
  shows "unat (m_totalBytesParsed (parser ls)) \<le> unat (m_totalBytesParsed (parser ls'))"
    and "unat (m_totalBytesParsed (parser ls')) = unat (m_totalBytesParsed (parser ls))
           \<Longrightarrow> \<not> m_isHeaderSet (parser ls')"
proof -
  define p where "p = parser ls"
  define n where "n = sizeToCopy sz p"
  from run obtain buf where sd: "SetData (activeBuffer p) rawData (sint (headerOffset ls)) (sint n) = Inr buf"
    by (cases "SetData (activeBuffer p) rawData (sint (headerOffset ls)) (sint n)")
      (simp_all add: payloadPhase_def Let_def p_def n_def)
  have tot: "m_totalBytesParsed (parser ls') = m_totalBytesParsed p + n"
    using payloadPhase_total [OF run] by (simp add: p_def n_def)
  have "unat n \<le> unat sz" by (simp add: n_def sizeToCopy_def unat_min_word)
  moreover from lt have tl: "unat (m_totalBytesParsed p) < unat sz"
    by (simp add: word_less_nat_alt p_def)
  ultimately have "unat (m_totalBytesParsed p) + unat n < 2 ^ LENGTH(32)"
    using small by simp
  then have sum: "unat (m_totalBytesParsed p + n) = unat (m_totalBytesParsed p) + unat n"
    by (simp only: unat_add_lem)
  with tot show "unat (m_totalBytesParsed (parser ls)) \<le> unat (m_totalBytesParsed (parser ls'))"
    by (simp add: p_def)
  assume "unat (m_totalBytesParsed (parser ls')) = unat (m_totalBytesParsed (parser ls))"
  with tot sum have "unat n = 0" by (simp add: p_def)
  then have n0: "n = 0" by (simp only: unat_eq_zero)
  have "sz \<noteq> 0" using tl by (rule word_neq0_of_less)
  with n0 have full: "GetSize (activeBuffer p) = messageLength (m_header p)"
    unfolding n_def by (rule sizeToCopy_zero)
  from sd n0 have "buf = activeBuffer p" by (simp add: SetData_zero)
  with full have "GetSize buf = messageLength (m_header (parser ls))" by (simp add: p_def)
  with payloadPhase_set [OF run _ sd [unfolded p_def n_def]]
  show "\<not> m_isHeaderSet (parser ls')" by blast
qed




lemma headerPhase_messages: "headerPhase rawData sz ls = Inr ls' \<Longrightarrow> messages ls' = messages ls"
  by (auto simp: headerPhase_def Let_def split: sum.splits if_splits)

lemma payloadPhase_messages:
  "payloadPhase rawData sz ls = Inr ls' \<Longrightarrow> \<exists>new. messages ls' = messages ls @ new"
  by (auto simp: payloadPhase_def Let_def split: sum.splits if_splits)

lemma loopBody_cases:
  assumes "loopBody rawData sz ls = Inr ls'"
  obtains (pending) "m_isHeaderSet (parser ls)" "m_totalBytesParsed (parser ls) < sz"
      "payloadPhase rawData sz ls = Inr ls'"
  | (idle) "m_isHeaderSet (parser ls)" "\<not> m_totalBytesParsed (parser ls) < sz" "ls' = ls"
  | (header) "\<not> m_isHeaderSet (parser ls)" "headerPhase rawData sz ls = Inr ls'"
      "\<not> (m_isHeaderSet (parser ls') \<and> m_totalBytesParsed (parser ls') < sz)"
  | (both) ls1 where "\<not> m_isHeaderSet (parser ls)" "headerPhase rawData sz ls = Inr ls1"
      "m_isHeaderSet (parser ls1)" "m_totalBytesParsed (parser ls1) < sz"
      "payloadPhase rawData sz ls1 = Inr ls'"
  using assms unfolding loopBody_def
  by (cases "m_isHeaderSet (parser ls)"; cases "headerPhase rawData sz ls")
     (auto split: if_splits)

lemma loopBody_messages:
  assumes "loopBody rawData sz ls = Inr ls'"
  shows "\<exists>new. messages ls' = messages ls @ new"
  using assms
proof (cases rule: loopBody_cases)
  case pending
  then show ?thesis by (simp add: payloadPhase_messages)
next
  case idle
  then show ?thesis by simp
next
  case header
  then show ?thesis by (simp add: headerPhase_messages)
next
  case (both ls1)
  from payloadPhase_messages [OF both(5)] headerPhase_messages [OF both(2)]
  show ?thesis by simp
qed

lemma loopBody_inv:
  assumes inv: "parserInv (parser ls)" and run: "loopBody rawData sz ls = Inr ls'"
  shows "parserInv (parser ls')"
  using run
proof (cases rule: loopBody_cases)
  case pending
  then show ?thesis using inv by (simp add: payloadPhase_inv(1))
next
  case idle
  then show ?thesis using inv by simp
next
  case header
  then show ?thesis using inv by (simp add: headerPhase_inv(1))
next
  case (both ls1)
  have "parserInv (parser ls1)" by (rule headerPhase_inv(1) [OF inv both(1,2)])
  then show ?thesis by (rule payloadPhase_inv(1) [OF _ both(3,5)])
qed

lemma parseLoop_rule:
  assumes step: "\<And>l l'. P l \<Longrightarrow> m_totalBytesParsed (parser l) < sz \<Longrightarrow>
                    loopBody rawData sz l = Inr l' \<Longrightarrow> P l'"
    and run: "parseLoop rawData sz ls = Some (Inr ls')" and init: "P ls"
  shows "P ls'"
proof -
  define Q where "Q = (\<lambda>s :: error + LoopState. case s of Inl e \<Rightarrow> True | Inr l \<Rightarrow> P l)"
  from run have w: "while_option (loopCond sz) (loopStep rawData sz) (Inr ls) = Some (Inr ls')"
    by (simp only: parseLoop_def)
  have "Q (Inr ls')"
  proof (rule while_option_rule [where P = Q, OF _ w])
    fix s
    assume "Q s" and "loopCond sz s"
    then show "Q (loopStep rawData sz s)"
      by (cases s) (auto simp: Q_def loopCond_def loopStep_def split: sum.splits intro: step)
  next
    show "Q (Inr ls)" using init by (simp add: Q_def)
  qed
  then show ?thesis by (simp add: Q_def)
qed

lemma parseLoop_messages:
  assumes "parseLoop rawData sz ls = Some (Inr ls')"
  shows "\<exists>new. messages ls' = messages ls @ new"
proof (rule parseLoop_rule [where P = "\<lambda>l. \<exists>new. messages l = messages ls @ new", OF _ assms])
  fix l l'
  assume "\<exists>new. messages l = messages ls @ new" and "loopBody rawData sz l = Inr l'"
  with loopBody_messages [of rawData sz l l'] show "\<exists>new. messages l' = messages ls @ new"
    by auto
next
  show "\<exists>new. messages ls = messages ls @ new" by simp
qed

lemma parseLoop_inv:
  assumes "parserInv (parser ls)" and "parseLoop rawData sz ls = Some (Inr ls')"
  shows "parserInv (parser ls')"
  by (rule parseLoop_rule [where P = "\<lambda>l. parserInv (parser l)", OF _ assms(2,1)])
     (rule loopBody_inv)

lemma parseLoop_exit:
  assumes "parseLoop rawData sz ls = Some (Inr ls')"
  shows "\<not> m_totalBytesParsed (parser ls') < sz"
  using while_option_stop [OF assms [unfolded parseLoop_def]] by (simp add: loopCond_def)

lemma le32_bytes32: "le32 (bytes32 w) = w"
  unfolding le32_def bytes32_def
  apply simp
  apply (rule bit_word_eqI)
  apply (auto simp: bit_simps)
  subgoal for n by (cases "24 \<le> n") simp_all
  done

lemma length_bytes32: "length (bytes32 w) = 4"
  by (simp add: bytes32_def)

lemma length_encodeHeader: "length (encodeHeader h) = 8"
  by (simp add: encodeHeader_def length_bytes32)

lemma decode_encodeHeader: "decodeHeader (encodeHeader h) = h"
  by (simp add: decodeHeader_def encodeHeader_def length_bytes32 le32_bytes32)

section \<open>Termination of the loop\<close>

lemma unat_of_sint_nonneg:
  assumes "0 \<le> sint (w::u32)"
  shows "unat w < 2147483648"
proof -
  from assms have a: "sint w = int (unat w)" by (rule sint_nonneg_unat)
  have "sint w < 2 ^ (LENGTH(32) - 1)" by (rule sint_lt)
  then have "int (unat w) < 2 ^ (LENGTH(32) - 1)" unfolding a .
  then have "int (unat w) < int 2147483648" by simp
  then show ?thesis by (simp only: of_nat_less_iff)
qed

lemma headerPhase_offsets:
  assumes inv: "parserInv (parser ls)" and nset: "\<not> m_isHeaderSet (parser ls)"
    and run: "headerPhase rawData sz ls = Inr ls'"
    and lt: "m_totalBytesParsed (parser ls) < sz"
  shows "\<not> m_isHeaderSet (parser ls') \<and> messageOffset ls' = messageOffset ls \<and>
           length (m_firstBuffer (parser ls)) < length (m_firstBuffer (parser ls')) \<and>
           length (m_firstBuffer (parser ls')) < 8 \<or>
         m_isHeaderSet (parser ls') \<and> unat (messageOffset ls) < unat (headerOffset ls')"
proof -
  define p where "p = parser ls"
  define l where "l = length (m_firstBuffer p)"
  define k where "k = min (sz - m_totalBytesParsed p) (s_headerSize - GetSize (activeBuffer p))"
  from inv nset have act: "m_activeIsFirst p" and l8: "l < 8"
    by (simp_all add: parserInv_def p_def l_def)
  have ab: "activeBuffer p = m_firstBuffer p" using act by (simp add: activeBuffer_def)
  have u8: "unat (s_headerSize - GetSize (activeBuffer p)) = 8 - l"
    using l8 by (simp add: ab s_headerSize_def GetSize_def unat_8_minus l_def)
  have us: "unat (sz - m_totalBytesParsed p) = unat sz - unat (m_totalBytesParsed p)"
    using lt by (simp add: unat_sub word_le_nat_alt word_less_nat_alt p_def)
  have uk: "unat k = min (unat sz - unat (m_totalBytesParsed p)) (8 - l)"
    by (simp add: k_def unat_min_word u8 us)
  from run obtain buf where sd: "SetData (m_firstBuffer p) rawData (sint (messageOffset ls)) (uint k) = Inr buf"
    by (auto simp: headerPhase_def Let_def p_def [symmetric] k_def ab split: sum.splits)
  from SetData_Inr(3) [OF sd] have len: "length buf = l + unat k" by (simp add: l_def)
  from lt have "unat (m_totalBytesParsed p) < unat sz" by (simp add: word_less_nat_alt p_def)
  with uk l8 len have grow: "l < length buf" and le8: "length buf \<le> 8" by auto
  then have g8: "(GetSize buf = s_headerSize) = (length buf = 8)"
    by (simp add: GetSize_def s_headerSize_def of_nat_eq_u32)
  show ?thesis
  proof (cases "length buf = 8")
    case False
    with run sd g8 le8 grow show ?thesis
      by (auto simp: headerPhase_def Let_def p_def [symmetric] k_def ab setActiveBuffer_def act l_def
          nset [unfolded p_def [symmetric]])
  next
    case True
    with run sd g8 have set': "m_isHeaderSet (parser ls')"
      and ho: "headerOffset ls' = (s_headerSize - GetSize (activeBuffer p)) + messageOffset ls"
      by (auto simp: headerPhase_def Let_def p_def [symmetric] k_def ab setActiveBuffer_def
          SwapBuffer_def act)
    from SetData_Inr(2) [OF sd] have "unat (messageOffset ls) < 2147483648"
      by (rule unat_of_sint_nonneg)
    with u8 have "unat (s_headerSize - GetSize (activeBuffer p)) + unat (messageOffset ls)
        < 2 ^ LENGTH(32)" by simp
    then have "unat ((s_headerSize - GetSize (activeBuffer p)) + messageOffset ls)
        = unat (s_headerSize - GetSize (activeBuffer p)) + unat (messageOffset ls)"
      by (simp only: unat_add_lem)
    with ho u8 l8 have "unat (messageOffset ls) < unat (headerOffset ls')" by simp
    with set' show ?thesis by simp
  qed
qed


lemma payloadPhase_messageOffset:
  assumes "payloadPhase rawData sz ls = Inr ls'"
  shows "messageOffset ls' = sizeToCopy sz (parser ls) + headerOffset ls"
  using assms
  by (simp add: payloadPhase_def Let_def split: sum.splits if_splits) auto

lemma setActiveBuffer_fields:
  "m_header (setActiveBuffer buf p) = m_header p"
  "m_isHeaderSet (setActiveBuffer buf p) = m_isHeaderSet p"
  "m_activeIsFirst (setActiveBuffer buf p) = m_activeIsFirst p"
  "m_totalBytesParsed (setActiveBuffer buf p) = m_totalBytesParsed p"
  by (simp_all add: setActiveBuffer_def)

lemma payloadPhase_incomplete:
  assumes "payloadPhase rawData sz ls = Inr ls'"
    and "SetData (activeBuffer (parser ls)) rawData (sint (headerOffset ls))
           (sint (sizeToCopy sz (parser ls))) = Inr buf"
    and "GetSize buf \<noteq> messageLength (m_header (parser ls))"
  shows "parser ls' = (setActiveBuffer buf (parser ls))
           \<lparr>m_totalBytesParsed := m_totalBytesParsed (parser ls) + sizeToCopy sz (parser ls)\<rparr>"
    and "headerOffset ls' = headerOffset ls"
  using assms
  by (auto simp add: payloadPhase_def Let_def setActiveBuffer_fields)

lemma payloadPhase_offsets:
  assumes inv: "parserInv (parser ls)" and set: "m_isHeaderSet (parser ls)"
    and run: "payloadPhase rawData sz ls = Inr ls'"
    and lt: "m_totalBytesParsed (parser ls) < sz"
  shows "m_isHeaderSet (parser ls') \<and> headerOffset ls' = headerOffset ls \<and>
           m_header (parser ls') = m_header (parser ls) \<and>
           length (m_secondBuffer (parser ls)) < length (m_secondBuffer (parser ls')) \<and>
           length (m_secondBuffer (parser ls')) \<le> unat (messageLength (m_header (parser ls))) \<or>
         \<not> m_isHeaderSet (parser ls') \<and> unat (headerOffset ls) \<le> unat (messageOffset ls')"
proof -
  define p where "p = parser ls"
  define g where "g = length (m_secondBuffer p)"
  define len where "len = messageLength (m_header p)"
  define n where "n = sizeToCopy sz p"
  from inv set have act: "\<not> m_activeIsFirst p"
    and gl: "g < unat len \<or> g = 0 \<and> len = 0"
    by (auto simp add: parserInv_def p_def g_def len_def)
  have ab: "activeBuffer p = m_secondBuffer p" using act by (simp add: activeBuffer_def)
  from gl have gle: "g \<le> unat len" by auto
  have "unat n \<le> unat (len - word_of_nat g)"
    by (simp add: n_def sizeToCopy_def unat_min_word ab GetSize_def len_def g_def)
  with gle have nb: "unat n \<le> unat len - g" by (simp add: unat_sub_of_nat)
  from run obtain buf where sd': "SetData (activeBuffer (parser ls)) rawData
      (sint (headerOffset ls)) (sint (sizeToCopy sz (parser ls))) = Inr buf"
    by (cases "SetData (activeBuffer (parser ls)) rawData (sint (headerOffset ls))
          (sint (sizeToCopy sz (parser ls)))")
      (simp_all add: payloadPhase_def Let_def)
  then have sd: "SetData (m_secondBuffer p) rawData (sint (headerOffset ls)) (sint n) = Inr buf"
    by (simp add: p_def [symmetric] ab n_def)
  from SetData_Inr(1) [OF sd] have sn: "sint n = int (unat n)" by (rule sint_nonneg_unat)
  with SetData_Inr(3) [OF sd] have blen: "length buf = g + unat n" by (simp add: g_def)
  with nb gle have ble: "length buf \<le> unat len" by simp
  have "unat len < 4294967296" using unsigned_less [of len] by simp
  with ble have full: "(GetSize buf = len) = (length buf = unat len)"
    by (simp add: GetSize_def of_nat_eq_u32)
  have mo: "messageOffset ls' = n + headerOffset ls"
    using payloadPhase_messageOffset [OF run] by (simp add: p_def n_def)
  from SetData_Inr(1) [OF sd] have "unat n < 2147483648" by (rule unat_of_sint_nonneg)
  moreover from SetData_Inr(2) [OF sd] have "unat (headerOffset ls) < 2147483648"
    by (rule unat_of_sint_nonneg)
  ultimately have "unat n + unat (headerOffset ls) < 2 ^ LENGTH(32)" by simp
  then have "unat (n + headerOffset ls) = unat n + unat (headerOffset ls)"
    by (simp only: unat_add_lem)
  with mo have up: "unat (headerOffset ls) \<le> unat (messageOffset ls')" by simp
  show ?thesis
  proof (cases "length buf = unat len")
    case True
    with full have "GetSize buf = messageLength (m_header (parser ls))"
      by (simp add: len_def p_def)
    with payloadPhase_set [OF run _ sd']
    have "\<not> m_isHeaderSet (parser ls')" by blast
    with up show ?thesis by simp
  next
    case False
    have "n \<noteq> 0"
    proof
      assume n0: "n = 0"
      from lt have "unat (m_totalBytesParsed p) < unat sz" by (simp add: word_less_nat_alt p_def)
      then have "sz \<noteq> 0" by (rule word_neq0_of_less)
      with n0 have "GetSize (activeBuffer p) = messageLength (m_header p)"
        unfolding n_def by (rule sizeToCopy_zero)
      moreover from sd n0 have "buf = m_secondBuffer p" by (simp add: SetData_zero)
      ultimately have "GetSize buf = len" by (simp add: ab len_def)
      with full False show False by simp
    qed
    then have "0 < unat n" by (simp add: unat_gt_0)
    with blen have grow: "g < length buf" by simp
    from full False have ne: "GetSize buf \<noteq> messageLength (m_header (parser ls))"
      by (simp add: len_def p_def)
    note inc = payloadPhase_incomplete [OF run sd' ne]
    from inc(1) set act have "m_isHeaderSet (parser ls')"
      and "m_header (parser ls') = m_header (parser ls)"
      and "m_secondBuffer (parser ls') = buf"
      by (simp_all add: setActiveBuffer_def p_def)
    with inc(2) grow ble show ?thesis by (simp add: g_def len_def p_def)
  qed
qed


lemma loopRank_pos: "0 < loopRank (Inr ls)"
proof -
  have "unat (readOffset ls) < 4294967296" using unsigned_less [of "readOffset ls"] by simp
  then show ?thesis by (simp add: loopRank_def)
qed

lemma loopRank_less:
  assumes "unat (readOffset ls) < unat (readOffset ls')"
  shows "loopRank (Inr ls') < loopRank (Inr ls)"
proof -
  have "unat (readOffset ls') < 4294967296" using unsigned_less [of "readOffset ls'"] by simp
  with assms show ?thesis by (simp add: loopRank_def)
qed

lemma loopBody_decreases:
  assumes inv: "parserInv (parser ls)" and run: "loopBody rawData sz ls = Inr ls'"
    and lt: "m_totalBytesParsed (parser ls) < sz"
  shows "(Inr ls', Inr ls) \<in> measures [loopRank, loopFlag, loopMissing]"
  using run
proof (cases rule: loopBody_cases)
  case pending
  from payloadPhase_offsets [OF inv pending(1,3) lt]
  show ?thesis
  proof (elim disjE conjE)
    assume "m_isHeaderSet (parser ls')" "headerOffset ls' = headerOffset ls"
      "m_header (parser ls') = m_header (parser ls)"
      "length (m_secondBuffer (parser ls)) < length (m_secondBuffer (parser ls'))"
      "length (m_secondBuffer (parser ls')) \<le> unat (messageLength (m_header (parser ls)))"
    with pending(1) show ?thesis
      by (simp add: loopRank_def loopFlag_def loopMissing_def readOffset_def bytesMissing_def)
  next
    assume a: "\<not> m_isHeaderSet (parser ls')" "unat (headerOffset ls) \<le> unat (messageOffset ls')"
    show ?thesis
    proof (cases "unat (headerOffset ls) = unat (messageOffset ls')")
      case True
      with a pending(1) show ?thesis
        by (simp add: loopRank_def loopFlag_def readOffset_def)
    next
      case False
      with a pending(1) have "unat (readOffset ls) < unat (readOffset ls')"
        by (simp add: readOffset_def)
      then show ?thesis by (simp add: loopRank_less)
    qed
  qed
next
  case idle
  with lt show ?thesis by simp
next
  case header
  from headerPhase_offsets [OF inv header(1,2) lt]
  show ?thesis
  proof (elim disjE conjE)
    assume "\<not> m_isHeaderSet (parser ls')" "messageOffset ls' = messageOffset ls"
      "length (m_firstBuffer (parser ls)) < length (m_firstBuffer (parser ls'))"
      "length (m_firstBuffer (parser ls')) < 8"
    with header(1) show ?thesis
      by (simp add: loopRank_def loopFlag_def loopMissing_def readOffset_def bytesMissing_def)
  next
    assume "m_isHeaderSet (parser ls')" "unat (messageOffset ls) < unat (headerOffset ls')"
    with header(1) have "unat (readOffset ls) < unat (readOffset ls')"
      by (simp add: readOffset_def)
    then show ?thesis by (simp add: loopRank_less)
  qed
next
  case (both ls1)
  from headerPhase_offsets [OF inv both(1,2) lt] both(3)
  have h: "unat (messageOffset ls) < unat (headerOffset ls1)" by simp
  have inv1: "parserInv (parser ls1)" by (rule headerPhase_inv(1) [OF inv both(1,2)])
  from payloadPhase_offsets [OF inv1 both(3,5,4)] h both(1)
  have "unat (readOffset ls) < unat (readOffset ls')"
    by (auto simp: readOffset_def)
  then show ?thesis by (simp add: loopRank_less)
qed

lemma parseLoop_terminates:
  assumes inv: "parserInv (parser ls)"
  shows "\<exists>r. parseLoop rawData sz ls = Some r"
  unfolding parseLoop_def
proof (rule wf_rel_while_option_Some
    [where R = "measures [loopRank, loopFlag, loopMissing]"
       and P = "\<lambda>s. case s of Inl e \<Rightarrow> True | Inr l \<Rightarrow> parserInv (parser l)"])
  show "wf (measures [loopRank, loopFlag, loopMissing])" by (rule wf_measures)
next
  fix s :: "error + LoopState"
  assume "(case s of Inl e \<Rightarrow> True | Inr l \<Rightarrow> parserInv (parser l)) \<and> loopCond sz s"
  then obtain l where s: "s = Inr l" and lt: "m_totalBytesParsed (parser l) < sz"
    and inv: "parserInv (parser l)"
    by (cases s) (simp_all add: loopCond_def)
  show "(loopStep rawData sz s, s) \<in> measures [loopRank, loopFlag, loopMissing]"
  proof (cases "loopBody rawData sz l")
    case (Inl e)
    with s loopRank_pos [of l] show ?thesis
      by (simp add: loopStep_def) (simp add: loopRank_def)
  next
    case (Inr l')
    with s loopBody_decreases [OF inv Inr lt] show ?thesis by (simp add: loopStep_def)
  qed
next
  fix s :: "error + LoopState"
  assume "(case s of Inl e \<Rightarrow> True | Inr l \<Rightarrow> parserInv (parser l)) \<and> loopCond sz s"
  then show "case loopStep rawData sz s of Inl e \<Rightarrow> True | Inr l \<Rightarrow> parserInv (parser l)"
    by (cases s) (auto simp: loopStep_def loopCond_def split: sum.splits intro: loopBody_inv)
next
  show "case Inr ls of Inl e \<Rightarrow> True | Inr l \<Rightarrow> parserInv (parser l)" using inv by simp
qed

section \<open>Whole calls\<close>


lemmas run_defs = parseChunk_def ParseMessage_def parseLoop_def
     while_option_unfold loopCond_def loopStep_def loopBody_def headerPhase_def payloadPhase_def sizeToCopy_def
     SetData_def GetSize_def activeBuffer_def setActiveBuffer_def SwapBuffer_def s_headerSize_def newParser_def
     awaitingPayload_def Let_def

lemma header_only_call:
  "parseChunk (encodeHeader h) msgs newParser = Some (Inr (msgs \<noteq> [], msgs, awaitingPayload h))"
  by (simp add: run_defs length_encodeHeader decode_encodeHeader)


lemma parseLoop_step:
  assumes "m_totalBytesParsed (parser ls) < sz" and "loopBody rawData sz ls = Inr ls'"
  shows "parseLoop rawData sz ls = parseLoop rawData sz ls'"
  unfolding parseLoop_def
  by (subst while_option_unfold) (simp add: loopCond_def loopStep_def assms)

lemma parseLoop_done:
  assumes "\<not> m_totalBytesParsed (parser ls) < sz"
  shows "parseLoop rawData sz ls = Some (Inr ls)"
  unfolding parseLoop_def
  by (subst while_option_unfold) (simp add: loopCond_def assms)

lemma payload_chunk_accumulates:
  assumes pos: "c \<noteq> []" and short: "length c < unat (messageLength h)"
    and small: "length c < 2147483648"
  shows "parseChunk c msgs (awaitingPayload h)
           = Some (Inr (msgs \<noteq> [], msgs, (awaitingPayload h)\<lparr>m_secondBuffer := c\<rparr>))"
proof -
  define sz :: u32 where "sz = word_of_nat (length c)"
  have usz: "unat sz = length c" using small by (simp add: sz_def unat_of_nat_u32)
  have sz0: "0 < sz" using pos usz by (simp add: word_less_nat_alt)
  have lt: "sz < messageLength h" using short usz by (simp add: word_less_nat_alt)
  then have "sz \<le> messageLength h" by (rule less_imp_le)
  then have mn: "min sz (messageLength h) = sz" by (rule min_absorb1)
  have ne: "sz \<noteq> messageLength h" using lt by auto
  have si: "sint sz = int (length c)" using small usz sint_small [of sz] by simp
  let ?ls = "\<lparr>parser = awaitingPayload h, headerOffset = 0, messageOffset = 0, messages = msgs\<rparr>"
  have body: "loopBody c sz ?ls
     = Inr \<lparr>parser = (awaitingPayload h)\<lparr>m_secondBuffer := c, m_totalBytesParsed := sz\<rparr>,
            headerOffset = 0, messageOffset = sz, messages = msgs\<rparr>"
    using sz0 ne
    by (simp add: loopBody_def payloadPhase_def sizeToCopy_def SetData_def activeBuffer_def
        setActiveBuffer_def awaitingPayload_def newParser_def Let_def mn si GetSize_def
        sz_def [symmetric])
  have "parseLoop c sz ?ls = Some (Inr \<lparr>parser = (awaitingPayload h)\<lparr>m_secondBuffer := c, m_totalBytesParsed := sz\<rparr>,
            headerOffset = 0, messageOffset = sz, messages = msgs\<rparr>)"
    by (subst parseLoop_step [OF _ body]) (simp_all add: sz0 awaitingPayload_def newParser_def parseLoop_done)
  then show ?thesis
    by (simp add: parseChunk_def ParseMessage_def sz_def [symmetric] awaitingPayload_def
        newParser_def)
qed






lemma ParseMessage_Inr:
  assumes run: "ParseMessage rawData sz msgs p = Some (Inr (b, msgs', p'))"
  obtains ls' where
    "parseLoop rawData sz \<lparr>parser = p, headerOffset = 0, messageOffset = 0, messages = msgs\<rparr>
       = Some (Inr ls')"
    and "b = (messages ls' \<noteq> [])" and "msgs' = messages ls'"
    and "p' = (parser ls')\<lparr>m_totalBytesParsed := 0\<rparr>"
proof (cases "parseLoop rawData sz \<lparr>parser = p, headerOffset = 0, messageOffset = 0, messages = msgs\<rparr>")
  case None
  with run show ?thesis by (simp add: ParseMessage_def)
next
  case (Some r)
  show ?thesis
  proof (cases r)
    case (Inl e)
    with Some run show ?thesis by (simp add: ParseMessage_def)
  next
    case (Inr ls')
    with Some run have "b = (messages ls' \<noteq> [])" "msgs' = messages ls'"
      "p' = (parser ls')\<lparr>m_totalBytesParsed := 0\<rparr>"
      by (auto simp: ParseMessage_def)
    with Some Inr that show ?thesis by simp
  qed
qed

lemma parserInv_cursor: "parserInv (p\<lparr>m_totalBytesParsed := t\<rparr>) = parserInv p"
  by (simp add: parserInv_def)

lemma ParseMessage_inv:
  assumes inv: "parserInv p" and run: "ParseMessage rawData sz msgs p = Some (Inr (b, msgs', p'))"
  shows "parserInv p'"
proof -
  from run obtain ls' where
    loop: "parseLoop rawData sz \<lparr>parser = p, headerOffset = 0, messageOffset = 0, messages = msgs\<rparr>
       = Some (Inr ls')"
    and p': "p' = (parser ls')\<lparr>m_totalBytesParsed := 0\<rparr>"
    by (rule ParseMessage_Inr)
  from parseLoop_inv [OF _ loop] inv have "parserInv (parser ls')" by simp
  then show ?thesis by (simp only: p' parserInv_cursor)
qed

lemma reachable_inv: "reachable p \<Longrightarrow> parserInv p"
proof (induction rule: reachable.induct)
  case fresh
  show ?case by (simp add: parserInv_def newParser_def)
next
  case (call p rawData sz msgs b msgs' p')
  then show ?case by (auto intro: ParseMessage_inv)
qed

lemma ParseMessage_returns:
  assumes "parserInv p"
  shows "\<exists>r. ParseMessage rawData sz msgs p = Some r"
proof -
  from parseLoop_terminates [of "\<lparr>parser = p, headerOffset = 0, messageOffset = 0, messages = msgs\<rparr>" rawData sz]
    assms
  obtain r where
    "parseLoop rawData sz \<lparr>parser = p, headerOffset = 0, messageOffset = 0, messages = msgs\<rparr> = Some r"
    by auto
  then show ?thesis by (cases r) (simp_all add: ParseMessage_def)
qed

lemma ParseMessage_appends:
  assumes "ParseMessage rawData sz msgs p = Some (Inr (b, msgs', p'))"
  shows "\<exists>new. msgs' = msgs @ new \<and> (b \<longleftrightarrow> msgs \<noteq> [] \<or> new \<noteq> [])"
proof -
  from assms obtain ls' where
    loop: "parseLoop rawData sz \<lparr>parser = p, headerOffset = 0, messageOffset = 0, messages = msgs\<rparr>
       = Some (Inr ls')"
    and b: "b = (messages ls' \<noteq> [])" and m: "msgs' = messages ls'"
    by (rule ParseMessage_Inr)
  from parseLoop_messages [OF loop] obtain new where "messages ls' = msgs @ new" by auto
  with b m show ?thesis by auto
qed

lemma payloadPhase_stall:
  assumes inv: "parserInv (parser ls)" and set: "m_isHeaderSet (parser ls)"
    and run: "payloadPhase rawData sz ls = Inr ls'"
    and lt: "m_totalBytesParsed (parser ls) < sz" and small: "unat sz < 2147483648"
    and same: "unat (m_totalBytesParsed (parser ls')) = unat (m_totalBytesParsed (parser ls))"
  shows "messageLength (m_header (parser ls)) = 0"
proof -
  define p where "p = parser ls"
  define n where "n = sizeToCopy sz p"
  define g where "g = length (m_secondBuffer p)"
  have tot: "m_totalBytesParsed (parser ls') = m_totalBytesParsed p + n"
    using payloadPhase_total [OF run] by (simp add: p_def n_def)
  have "unat n \<le> unat sz" by (simp add: n_def sizeToCopy_def unat_min_word)
  moreover from lt have tl: "unat (m_totalBytesParsed p) < unat sz"
    by (simp add: word_less_nat_alt p_def)
  ultimately have "unat (m_totalBytesParsed p) + unat n < 2 ^ LENGTH(32)"
    using small by simp
  then have "unat (m_totalBytesParsed p + n) = unat (m_totalBytesParsed p) + unat n"
    by (simp only: unat_add_lem)
  with tot same have "unat n = 0" by (simp add: p_def)
  then have n0: "n = 0" by (simp only: unat_eq_zero)
  have "sz \<noteq> 0" using tl by (rule word_neq0_of_less)
  with n0 have full: "GetSize (activeBuffer p) = messageLength (m_header p)"
    unfolding n_def by (rule sizeToCopy_zero)
  from inv set have act: "\<not> m_activeIsFirst p"
    and gl: "g < unat (messageLength (m_header p)) \<or> messageLength (m_header p) = 0"
    by (auto simp add: parserInv_def p_def g_def)
  from full act have eq: "word_of_nat g = messageLength (m_header p)"
    by (simp add: activeBuffer_def GetSize_def g_def)
  show ?thesis
  proof (rule ccontr)
    assume "messageLength (m_header (parser ls)) \<noteq> 0"
    with gl have gless: "g < unat (messageLength (m_header p))" by (simp add: p_def)
    also have "\<dots> < 4294967296" using unsigned_less [of "messageLength (m_header p)"] by simp
    finally have "unat (word_of_nat g :: u32) = g" by (rule unat_of_nat_u32)
    with eq gless show False by simp
  qed
qed

lemma loopBody_progress:
  assumes inv: "parserInv (parser ls)" and run: "loopBody rawData sz ls = Inr ls'"
    and lt: "m_totalBytesParsed (parser ls) < sz" and small: "unat sz < 2147483648"
  shows "m_totalBytesParsed (parser ls) < m_totalBytesParsed (parser ls') \<or>
         m_totalBytesParsed (parser ls') = m_totalBytesParsed (parser ls) \<and>
         m_isHeaderSet (parser ls) \<and> \<not> m_isHeaderSet (parser ls') \<and>
         messageLength (m_header (parser ls)) = 0"
  using run
proof (cases rule: loopBody_cases)
  case pending
  note c = payloadPhase_cursor [OF pending(3) lt small]
  show ?thesis
  proof (cases "unat (m_totalBytesParsed (parser ls')) = unat (m_totalBytesParsed (parser ls))")
    case True
    from payloadPhase_stall [OF inv pending(1,3) lt small True] c(2) [OF True] True pending(1)
    show ?thesis by (simp add: word_unat_eq_iff)
  next
    case False
    with c(1) show ?thesis by (simp add: word_less_nat_alt)
  qed
next
  case idle
  with lt show ?thesis by simp
next
  case header
  from headerPhase_cursor [OF inv header(1,2) lt small] show ?thesis
    by (simp add: word_less_nat_alt)
next
  case (both ls1)
  have "unat (m_totalBytesParsed (parser ls)) < unat (m_totalBytesParsed (parser ls1))"
    by (rule headerPhase_cursor [OF inv both(1,2) lt small])
  also have "\<dots> \<le> unat (m_totalBytesParsed (parser ls'))"
    by (rule payloadPhase_cursor(1) [OF both(5,4) small])
  finally show ?thesis by (simp add: word_less_nat_alt)
qed


lemma reachable_cursor: "reachable p \<Longrightarrow> m_totalBytesParsed p = 0"
proof (induction rule: reachable.induct)
  case fresh
  show ?case by (simp add: newParser_def)
next
  case (call p rawData sz msgs b msgs' p')
  from call(2) obtain ls' where
    "parseLoop rawData sz \<lparr>parser = p, headerOffset = 0, messageOffset = 0, messages = msgs\<rparr>
       = Some (Inr ls')"
    and "b = (messages ls' \<noteq> [])" and "msgs' = messages ls'"
    and "p' = (parser ls')\<lparr>m_totalBytesParsed := 0\<rparr>"
    by (rule ParseMessage_Inr)
  then show ?case by simp
qed

lemma header_completing_call:
  assumes inv: "parserInv p" and t0: "m_totalBytesParsed p = 0" and nset: "\<not> m_isHeaderSet p"
    and len: "length c = 8 - length (m_firstBuffer p)"
  shows "parseChunk c msgs p
           = Some (Inr (msgs \<noteq> [], msgs, awaitingPayload (decodeHeader (m_firstBuffer p @ c))))"
proof -
  define l where "l = length (m_firstBuffer p)"
  define sz :: u32 where "sz = word_of_nat (length c)"
  from inv nset have act: "m_activeIsFirst p" and sec: "m_secondBuffer p = []" and l8: "l < 8"
    by (simp_all add: parserInv_def l_def)
  have lc: "length c = 8 - l" using len by (simp add: l_def)
  have usz: "unat sz = 8 - l" unfolding sz_def lc by (rule unat_of_nat_u32) simp
  have sz0: "0 < sz" using usz l8 by (simp add: word_less_nat_alt)
  have u8: "unat (s_headerSize - GetSize (m_firstBuffer p)) = 8 - l"
    using l8 by (simp add: s_headerSize_def GetSize_def unat_8_minus l_def)
  have "sz = s_headerSize - GetSize (m_firstBuffer p)"
    using usz u8 by (simp add: word_unat_eq_iff)
  then have mn: "min sz (s_headerSize - GetSize (m_firstBuffer p)) = sz" by simp
  have uz: "uint sz = int (length c)" using usz lc by (simp add: uint_nat)
  have g8: "GetSize (m_firstBuffer p @ c) = s_headerSize"
    using lc l8 by (simp add: GetSize_def s_headerSize_def l_def)
  have nlt: "\<not> (8 :: u32) < sz" using usz by (simp add: word_less_nat_alt)
  let ?ls = "\<lparr>parser = p, headerOffset = 0, messageOffset = 0, messages = msgs\<rparr>"
  let ?p1 = "p\<lparr>m_firstBuffer := [], m_activeIsFirst := False,
      m_header := decodeHeader (m_firstBuffer p @ c), m_isHeaderSet := True,
      m_totalBytesParsed := 8\<rparr>"
  let ?ls1 = "\<lparr>parser = ?p1, headerOffset = s_headerSize - GetSize (m_firstBuffer p),
      messageOffset = 0, messages = msgs\<rparr>"
  have body: "loopBody c sz ?ls = Inr ?ls1"
    using nset act t0 nlt
    by (simp add: loopBody_def headerPhase_def SetData_def activeBuffer_def setActiveBuffer_def
        SwapBuffer_def Let_def mn uz g8) (simp add: s_headerSize_def)
  have "parseLoop c sz ?ls = Some (Inr ?ls1)"
    by (subst parseLoop_step [OF _ body]) (simp_all add: sz0 t0 nlt parseLoop_done)
  moreover have "?p1\<lparr>m_totalBytesParsed := 0\<rparr> = awaitingPayload (decodeHeader (m_firstBuffer p @ c))"
    using sec by (simp add: awaitingPayload_def newParser_def)
  ultimately show ?thesis
    by (simp add: parseChunk_def ParseMessage_def sz_def [symmetric])
qed


lemma payload_call_accumulates:
  assumes inv: "parserInv p" and t0: "m_totalBytesParsed p = 0" and set: "m_isHeaderSet p"
    and pos: "c \<noteq> []"
    and short: "length (m_secondBuffer p) + length c < unat (messageLength (m_header p))"
    and small: "length c < 2147483648"
  shows "parseChunk c msgs p
           = Some (Inr (msgs \<noteq> [], msgs, p\<lparr>m_secondBuffer := m_secondBuffer p @ c\<rparr>))"
proof -
  define g where "g = length (m_secondBuffer p)"
  define len where "len = messageLength (m_header p)"
  define sz :: u32 where "sz = word_of_nat (length c)"
  from inv set have act: "\<not> m_activeIsFirst p" by (simp add: parserInv_def)
  have usz: "unat sz = length c" using small by (simp add: sz_def unat_of_nat_u32)
  have sz0: "0 < sz" using pos usz by (simp add: word_less_nat_alt)
  have gle: "g \<le> unat len" using short by (simp add: g_def len_def)
  have ur: "unat (len - word_of_nat g) = unat len - g" using gle by (rule unat_sub_of_nat)
  have "sz \<le> len - word_of_nat g" using short usz ur by (simp add: word_le_nat_alt g_def len_def)
  then have mn: "min sz (len - word_of_nat g) = sz" by (rule min_absorb1)
  have si: "sint sz = int (length c)" using small usz sint_small [of sz] by simp
  have "unat len < 4294967296" using unsigned_less [of len] by simp
  with short have "g + length c < 4294967296" by (simp add: g_def len_def)
  then have "unat (word_of_nat (g + length c) :: u32) = g + length c" by (rule unat_of_nat_u32)
  with short have ne: "(word_of_nat (g + length c) :: u32) \<noteq> len"
    by (auto simp: g_def len_def)
  let ?ls = "\<lparr>parser = p, headerOffset = 0, messageOffset = 0, messages = msgs\<rparr>"
  let ?ls1 = "\<lparr>parser = p\<lparr>m_secondBuffer := m_secondBuffer p @ c, m_totalBytesParsed := sz\<rparr>,
      headerOffset = 0, messageOffset = sz, messages = msgs\<rparr>"
  have body: "loopBody c sz ?ls = Inr ?ls1"
    using set act t0 sz0 ne
    by (simp add: loopBody_def payloadPhase_def sizeToCopy_def SetData_def activeBuffer_def
        setActiveBuffer_def Let_def GetSize_def mn [unfolded len_def g_def] si g_def len_def)
  have "parseLoop c sz ?ls = Some (Inr ?ls1)"
    by (subst parseLoop_step [OF _ body]) (simp_all add: sz0 t0 parseLoop_done)
  then show ?thesis
    using t0 by (simp add: parseChunk_def ParseMessage_def sz_def [symmetric])
qed


lemma frame_iteration:
  assumes wf: "wellFormed m" and raw: "drop (unat tw) rawData = encodeMessage m @ rest"
    and sz: "unat sz = length rawData" and small: "length rawData < 2147483648"
    and more: "messageData m \<noteq> [] \<or> rest \<noteq> []"
  shows "loopBody rawData sz
           \<lparr>parser = newParser\<lparr>m_totalBytesParsed := tw\<rparr>, headerOffset = ho,
             messageOffset = tw, messages = acc\<rparr>
         = Inr \<lparr>parser = newParser\<lparr>m_totalBytesParsed := tw + 8 + messageLength (header m)\<rparr>,
                headerOffset = 8 + tw, messageOffset = tw + 8 + messageLength (header m),
                messages = acc @ [m]\<rparr>"
proof -
  define t where "t = unat tw"
  define len where "len = length (messageData m)"
  define h where "h = header m"
  have ulen: "unat (messageLength h) = len" using wf by (simp add: wellFormed_def len_def h_def)
  have dr: "drop t rawData = encodeHeader h @ messageData m @ rest"
    using raw by (simp add: encodeMessage_def t_def h_def)
  have "length (drop t rawData) = 8 + len + length rest"
    by (simp add: dr length_encodeHeader len_def)
  then have L: "length rawData = t + 8 + len + length rest" by simp
  have tk: "take 8 (drop t rawData) = encodeHeader h" by (simp add: dr length_encodeHeader)
  have "drop (t + 8) rawData = drop 8 (drop t rawData)" by (simp add: add.commute)
  then have dr2: "drop (t + 8) rawData = messageData m @ rest"
    by (simp add: dr length_encodeHeader)
  then have tk2: "take len (drop (t + 8) rawData) = messageData m" by (simp add: len_def)
  have ut: "unat tw = t" by (simp add: t_def)
  have st: "sint tw = int t" using L small ut sint_small [of tw] by simp
  have le8: "8 \<le> sz - tw"
  proof -
    have "tw \<le> sz" using sz L ut by (simp add: word_le_nat_alt)
    then have "unat (sz - tw) = unat sz - unat tw" by (rule unat_sub)
    then show ?thesis using sz L ut by (simp add: word_le_nat_alt)
  qed
  then have mn: "min (sz - tw) 8 = 8" by (rule min_absorb2)
  have "unat tw + unat (8 :: u32) < 2 ^ LENGTH(32)" using L small ut by simp
  then have u8: "unat (tw + 8) = t + 8" by (simp add: unat_add_lem [THEN iffD1] ut)
  have s8: "sint (8 + tw) = int (t + 8)"
    using L small u8 sint_small [of "tw + 8"] by (simp add: add.commute)
  have lt: "tw + 8 < sz" using u8 sz L more by (auto simp: word_less_nat_alt len_def)
  have "messageLength h \<le> sz" using ulen sz L by (simp add: word_le_nat_alt)
  then have mn2: "min sz (messageLength h) = messageLength h" by (rule min_absorb2)
  have sl: "sint (messageLength h) = int len"
    using L small ulen sint_small [of "messageLength h"] by simp
  have "len < 4294967296" using L small by simp
  then have gs: "GetSize (messageData m) = messageLength h"
    using ulen by (simp add: GetSize_def len_def [symmetric] of_nat_eq_u32)
  have msg: "\<lparr>header = h, messageData = take len (messageData m)\<rparr> = m"
    by (simp add: len_def h_def)
  let ?ls0 = "\<lparr>parser = newParser\<lparr>m_totalBytesParsed := tw\<rparr>, headerOffset = ho,
             messageOffset = tw, messages = acc\<rparr>"
  let ?p1 = "\<lparr>m_firstBuffer = [], m_secondBuffer = [], m_activeIsFirst = False, m_header = h,
      m_isHeaderSet = True, m_totalBytesParsed = tw + 8\<rparr>"
  let ?ls1 = "\<lparr>parser = ?p1, headerOffset = 8 + tw, messageOffset = tw, messages = acc\<rparr>"
  have hp: "headerPhase rawData sz ?ls0 = Inr ?ls1"
    using L
    by (simp add: headerPhase_def SetData_def activeBuffer_def setActiveBuffer_def SwapBuffer_def
        newParser_def Let_def GetSize_def s_headerSize_def mn st tk decode_encodeHeader
        length_encodeHeader)
  have pp: "payloadPhase rawData sz ?ls1
      = Inr \<lparr>parser = newParser\<lparr>m_totalBytesParsed := tw + 8 + messageLength h\<rparr>,
             headerOffset = 8 + tw, messageOffset = messageLength h + (8 + tw),
             messages = acc @ [m]\<rparr>"
  proof -
    have nt: "nat (int t + 8) = t + 8" by simp
    have gs': "(word_of_nat len :: u32) = messageLength h"
      using gs by (simp add: GetSize_def len_def)
    have msg': "\<lparr>header = h, messageData = messageData m\<rparr> = m" by (simp add: h_def)
    show ?thesis
      using L
      by (simp add: payloadPhase_def sizeToCopy_def SetData_def activeBuffer_def
          setActiveBuffer_def SwapBuffer_def newParser_def Let_def GetSize_def mn2 s8 sl nt tk2
          gs' gs [unfolded GetSize_def] ulen msg' msg)
  qed
  have "messageLength h + (8 + tw) = tw + 8 + messageLength h" by (simp add: ac_simps)
  with hp pp lt show ?thesis
    by (simp add: loopBody_def newParser_def h_def)
qed


lemma length_encodeMessage: "length (encodeMessage m) = 8 + length (messageData m)"
  by (simp add: encodeMessage_def length_encodeHeader)

lemma encodeMessages_Cons: "encodeMessages (m # ms) = encodeMessage m @ encodeMessages ms"
  by (simp add: encodeMessages_def)

lemma encodeMessages_nonempty: "ms \<noteq> [] \<Longrightarrow> encodeMessages ms \<noteq> []"
proof (cases ms)
  case Nil
  then show "ms \<noteq> [] \<Longrightarrow> encodeMessages ms \<noteq> []" by simp
next
  case (Cons m ms')
  have "length (encodeMessages (m # ms')) \<noteq> 0"
    by (simp add: encodeMessages_Cons length_encodeMessage)
  with Cons show ?thesis by auto
qed

lemma frames_loop:
  assumes "\<forall>m \<in> set ms. wellFormed m"
    and "drop (unat tw) rawData = encodeMessages ms" and "unat tw \<le> length rawData"
    and "unat sz = length rawData" and "length rawData < 2147483648"
    and "ms \<noteq> [] \<longrightarrow> messageData (last ms) \<noteq> []"
  shows "\<exists>ho'. parseLoop rawData sz
           \<lparr>parser = newParser\<lparr>m_totalBytesParsed := tw\<rparr>, headerOffset = ho,
             messageOffset = tw, messages = acc\<rparr>
         = Some (Inr \<lparr>parser = newParser\<lparr>m_totalBytesParsed := sz\<rparr>, headerOffset = ho',
                      messageOffset = sz, messages = acc @ ms\<rparr>)"
  using assms
proof (induction ms arbitrary: tw ho acc)
  case Nil
  then have "length rawData \<le> unat tw" by (simp add: encodeMessages_def)
  with Nil have "unat tw = unat sz" by simp
  then have eq: "tw = sz" by (simp add: word_unat_eq_iff)
  then have "\<not> m_totalBytesParsed (parser \<lparr>parser = newParser\<lparr>m_totalBytesParsed := tw\<rparr>,
      headerOffset = ho, messageOffset = tw, messages = acc\<rparr>) < sz" by simp
  from parseLoop_done [OF this, of rawData] eq show ?case by simp
next
  case (Cons m ms)
  let ?rest = "encodeMessages ms"
  let ?tw' = "tw + 8 + messageLength (header m)"
  from Cons.prems(1) have wf: "wellFormed m" and wfs: "\<forall>m \<in> set ms. wellFormed m" by simp_all
  from Cons.prems(2) have raw: "drop (unat tw) rawData = encodeMessage m @ ?rest"
    by (simp add: encodeMessages_Cons)
  have more: "messageData m \<noteq> [] \<or> ?rest \<noteq> []"
  proof (cases "ms = []")
    case True
    with Cons.prems(6) show ?thesis by simp
  next
    case False
    then show ?thesis by (simp add: encodeMessages_nonempty)
  qed
  note body = frame_iteration [OF wf raw Cons.prems(4,5) more, of ho acc]
  have "length (drop (unat tw) rawData) = 8 + length (messageData m) + length ?rest"
    by (simp add: raw length_encodeMessage)
  then have L: "length rawData = unat tw + 8 + length (messageData m) + length ?rest" by simp
  then have "unat tw < unat sz" using Cons.prems(4) by simp
  then have lt: "tw < sz" by (simp add: word_less_nat_alt)
  have ulen: "unat (messageLength (header m)) = length (messageData m)"
    using wf by (simp add: wellFormed_def)
  have "unat tw + unat (8 :: u32) < 2 ^ LENGTH(32)" using L Cons.prems(5) by simp
  then have u8: "unat (tw + 8) = unat tw + 8" by (simp add: unat_add_lem [THEN iffD1])
  have "unat (tw + 8) + unat (messageLength (header m)) < 2 ^ LENGTH(32)"
    using L Cons.prems(5) u8 ulen by simp
  then have ut': "unat ?tw' = unat tw + 8 + length (messageData m)"
    by (simp add: unat_add_lem [THEN iffD1] u8 ulen)
  have "drop (unat ?tw') rawData = drop (8 + length (messageData m)) (drop (unat tw) rawData)"
    by (simp only: ut' drop_drop) (simp add: ac_simps)
  then have dr': "drop (unat ?tw') rawData = ?rest" by (simp add: raw length_encodeMessage)
  have le': "unat ?tw' \<le> length rawData" using ut' L by simp
  have last': "ms \<noteq> [] \<longrightarrow> messageData (last ms) \<noteq> []" using Cons.prems(6) by auto
  from Cons.IH [OF wfs dr' le' Cons.prems(4,5) last', of "8 + tw" "acc @ [m]"]
  obtain ho' where "parseLoop rawData sz
           \<lparr>parser = newParser\<lparr>m_totalBytesParsed := ?tw'\<rparr>, headerOffset = 8 + tw,
             messageOffset = ?tw', messages = acc @ [m]\<rparr>
         = Some (Inr \<lparr>parser = newParser\<lparr>m_totalBytesParsed := sz\<rparr>, headerOffset = ho',
                      messageOffset = sz, messages = (acc @ [m]) @ ms\<rparr>)" by blast
  moreover have "parseLoop rawData sz
           \<lparr>parser = newParser\<lparr>m_totalBytesParsed := tw\<rparr>, headerOffset = ho,
             messageOffset = tw, messages = acc\<rparr>
       = parseLoop rawData sz
           \<lparr>parser = newParser\<lparr>m_totalBytesParsed := ?tw'\<rparr>, headerOffset = 8 + tw,
             messageOffset = ?tw', messages = acc @ [m]\<rparr>"
    by (rule parseLoop_step [OF _ body]) (simp add: lt)
  ultimately show ?case by simp
qed


lemma newParser_cursor0: "newParser\<lparr>m_totalBytesParsed := 0\<rparr> = newParser"
  by (simp add: newParser_def)

lemma frames_call:
  assumes wf: "\<forall>m \<in> set ms. wellFormed m" and small: "length (encodeMessages ms) < 2147483648"
    and last: "ms \<noteq> [] \<longrightarrow> messageData (last ms) \<noteq> []"
  shows "parseChunk (encodeMessages ms) msgs newParser
           = Some (Inr (msgs @ ms \<noteq> [], msgs @ ms, newParser))"
proof -
  define raw where "raw = encodeMessages ms"
  define sz :: u32 where "sz = word_of_nat (length raw)"
  have usz: "unat sz = length raw" using small by (simp add: sz_def raw_def unat_of_nat_u32)
  from frames_loop [of ms 0 raw sz 0 msgs] wf small last usz
  obtain ho' where "parseLoop raw sz
           \<lparr>parser = newParser\<lparr>m_totalBytesParsed := 0\<rparr>, headerOffset = 0,
             messageOffset = 0, messages = msgs\<rparr>
         = Some (Inr \<lparr>parser = newParser\<lparr>m_totalBytesParsed := sz\<rparr>, headerOffset = ho',
                      messageOffset = sz, messages = msgs @ ms\<rparr>)"
    by (auto simp: raw_def)
  then show ?thesis
    by (simp add: parseChunk_def ParseMessage_def raw_def [symmetric] sz_def [symmetric]
        newParser_cursor0)
qed

lemma pending_then_frames_call:
  assumes inv: "parserInv p" and t0: "m_totalBytesParsed p = 0" and set: "m_isHeaderSet p"
    and fill: "length (m_secondBuffer p) + length tail = unat (messageLength (m_header p))"
    and wf: "\<forall>m \<in> set ms. wellFormed m"
    and small: "length (tail @ encodeMessages ms) < 2147483648"
    and last: "if ms = [] then tail \<noteq> [] else messageData (last ms) \<noteq> []"
  shows "parseChunk (tail @ encodeMessages ms) msgs p
           = Some (Inr (True,
               msgs @ \<lparr>header = m_header p, messageData = m_secondBuffer p @ tail\<rparr> # ms,
               newParser))"
proof -
  define raw where "raw = tail @ encodeMessages ms"
  define sz :: u32 where "sz = word_of_nat (length raw)"
  define g where "g = length (m_secondBuffer p)"
  define len where "len = messageLength (m_header p)"
  define n where "n = len - word_of_nat g"
  from inv set have act: "\<not> m_activeIsFirst p" and fst: "m_firstBuffer p = []"
    by (simp_all add: parserInv_def)
  have "length raw < 4294967296" using small by (simp add: raw_def)
  then have usz: "unat sz = length raw" unfolding sz_def by (rule unat_of_nat_u32)
  have ne: "raw \<noteq> []" using last by (cases "ms = []") (simp_all add: raw_def encodeMessages_nonempty)
  then have sz0: "0 < sz" using usz by (simp add: word_less_nat_alt)
  have gle: "g \<le> unat len" using fill by (simp add: g_def len_def)
  have un: "unat n = length tail"
    using unat_sub_of_nat [OF gle] fill by (simp add: n_def g_def len_def)
  have "n \<le> sz" using un usz by (simp add: word_le_nat_alt raw_def)
  then have mn: "min sz n = n" by (rule min_absorb2)
  have "unat n < 2147483648" using un small by simp
  then have sn: "sint n = int (length tail)" using sint_small [of n] un by simp
  have tk: "take (length tail) raw = tail" by (simp add: raw_def)
  have "unat len < 4294967296" using unsigned_less [of len] by simp
  then have "(word_of_nat (g + length tail) :: u32) = len"
    using fill by (simp add: of_nat_eq_u32 g_def len_def)
  then have full: "(word_of_nat (length (m_secondBuffer p) + length tail) :: u32) = messageLength (m_header p)"
    by (simp add: g_def len_def)
  have tk2: "take (unat (messageLength (m_header p))) (m_secondBuffer p @ tail) = m_secondBuffer p @ tail"
    using fill by simp
  let ?m = "\<lparr>header = m_header p, messageData = m_secondBuffer p @ tail\<rparr>"
  let ?ls = "\<lparr>parser = p, headerOffset = 0, messageOffset = 0, messages = msgs\<rparr>"
  let ?ls1 = "\<lparr>parser = newParser\<lparr>m_totalBytesParsed := n\<rparr>, headerOffset = 0,
      messageOffset = n, messages = msgs @ [?m]\<rparr>"
  have full': "(word_of_nat (length (m_secondBuffer p)) :: u32) + word_of_nat (length tail)
      = messageLength (m_header p)"
    using full by simp
  have lr: "\<not> length raw < length tail" by (simp add: raw_def)
  have rec: "p\<lparr>m_totalBytesParsed := n, m_isHeaderSet := False, m_header := Clear,
      m_activeIsFirst := True, m_secondBuffer := []\<rparr> = newParser\<lparr>m_totalBytesParsed := n\<rparr>"
    using fst by (cases p) (simp add: newParser_def)
  have tk3: "take (unat (messageLength (m_header p))) (m_secondBuffer p) @
      take (unat (messageLength (m_header p)) - length (m_secondBuffer p)) tail
      = m_secondBuffer p @ tail"
    using fill by simp
  have nd: "messageLength (m_header p) - word_of_nat (length (m_secondBuffer p)) = n"
    by (simp add: n_def len_def g_def)
  have body: "loopBody raw sz ?ls = Inr ?ls1"
    using set act t0 sz0
    by (simp add: loopBody_def payloadPhase_def sizeToCopy_def SetData_def activeBuffer_def
        setActiveBuffer_def SwapBuffer_def Let_def GetSize_def nd mn sn tk full' lr rec tk3)
  have step: "parseLoop raw sz ?ls = parseLoop raw sz ?ls1"
    by (rule parseLoop_step [OF _ body]) (simp add: sz0 t0)
  have dr: "drop (unat n) raw = encodeMessages ms" by (simp add: un raw_def)
  have le: "unat n \<le> length raw" by (simp add: un raw_def)
  have last': "ms \<noteq> [] \<longrightarrow> messageData (last ms) \<noteq> []" using last by auto
  from frames_loop [OF wf dr le usz small [folded raw_def] last', of 0 "msgs @ [?m]"]
  obtain ho' where "parseLoop raw sz ?ls1
         = Some (Inr \<lparr>parser = newParser\<lparr>m_totalBytesParsed := sz\<rparr>, headerOffset = ho',
                      messageOffset = sz, messages = (msgs @ [?m]) @ ms\<rparr>)"
    by blast
  with step show ?thesis
    by (simp add: parseChunk_def ParseMessage_def raw_def [symmetric] sz_def [symmetric])
       (simp add: newParser_def)
qed

lemma list8:
  assumes "length xs = 8"
  obtains a b c d e f g h where "xs = [a, b, c, d, e, f, g, h]"
  using assms by (auto simp: length_Suc_conv eval_nat_numeral)

lemma list14:
  assumes "length xs = 14"
  obtains a b c d e f g h i j k l m n where "xs = [a, b, c, d, e, f, g, h, i, j, k, l, m, n]"
  using assms by (auto simp: length_Suc_conv eval_nat_numeral)

section \<open>Claims settled by running the parser\<close>

text \<open>
  C1 (chunk-invariance). The frame of \<open>shortMessage\<close> is 9 bytes. Handed over in one call
  it comes out as that message; handed over as its first 2 bytes and then the other 7, the
  second call adds the header buffer's whole size (8) to the cursor after taking 6 bytes,
  the loop ends at cursor 8 with the payload byte unread, and no message comes out.
\<close>

theorem C1_chunk_invariance_fails:
  "parseChunks (chunksOf [9] (encodeMessage shortMessage)) [] newParser
     = Some (Inr ([shortMessage], newParser)) \<and>
   parseChunks (chunksOf [2, 7] (encodeMessage shortMessage)) [] newParser
     = Some (Inr ([], awaitingPayload (header shortMessage)))"
  by code_simp

text \<open>
  C2 (clamp of the payload copy). A 10-byte chunk holds the fixture's header and 2 payload
  bytes. After the header phase the cursor is 8, so 2 bytes of the chunk are left; line 59
  takes the minimum with \<open>size\<close> itself and asks for 10 bytes from offset 8, where the clamp
  to the bytes left would give 2. With the chunk as all the memory there is, the read
  leaves it.
\<close>

theorem C2_copy_exceeds_chunk:
  "headerPhase (encodeHeader s_header @ [97, 98]) 10
      \<lparr>parser = newParser, headerOffset = 0, messageOffset = 0, messages = []\<rparr>
     = Inr \<lparr>parser = (awaitingPayload s_header)\<lparr>m_totalBytesParsed := 8\<rparr>, headerOffset = 8,
            messageOffset = 0, messages = []\<rparr> \<and>
   sizeToCopy 10 ((awaitingPayload s_header)\<lparr>m_totalBytesParsed := 8\<rparr>) = 10 \<and>
   min (10 - 8) (messageLength s_header - GetSize []) = (2 :: u32) \<and>
   parseChunk (encodeHeader s_header @ [97, 98]) [] newParser = Some (Inl OutOfBounds)"
  by code_simp

text \<open>
  C3 (no premature emission). The fixture's 22-byte frame lies in memory and the call is
  given its first 15 bytes (\<open>size = 15\<close>): the payload copy takes 14 bytes from offset 8,
  7 of them behind the chunk, and the whole message is emitted, the call returning true.
  With the memory ending where the chunk ends, the same copy is a read out of bounds.
\<close>

theorem C3_prefix_emits:
  "ParseMessage (encodeMessage s_message) 15 [] newParser
     = Some (Inr (True, [s_message], newParser)) \<and>
   parseChunk (take 15 (encodeMessage s_message)) [] newParser = Some (Inl OutOfBounds)"
  by code_simp

text \<open>
  C7 (cursor accounting). Two calls of 2 header bytes each on a fresh parser: the second
  call takes 2 bytes from its chunk and leaves the loop with \<open>m_totalBytesParsed = 4\<close>,
  the size of the header buffer, not 2.
\<close>

theorem C7_cursor_overshoots:
  "parseChunk [1, 0] [] newParser
     = Some (Inr (False, [], newParser\<lparr>m_firstBuffer := [1, 0]\<rparr>)) \<and>
   parseLoop [0, 0] 2
      \<lparr>parser = newParser\<lparr>m_firstBuffer := [1, 0]\<rparr>, headerOffset = 0, messageOffset = 0,
        messages = []\<rparr>
     = Some (Inr \<lparr>parser = newParser\<lparr>m_firstBuffer := [1, 0, 0, 0], m_totalBytesParsed := 4\<rparr>,
                  headerOffset = 0, messageOffset = 0, messages = []\<rparr>)"
  by code_simp

section \<open>Claims settled in general\<close>

text \<open>
  C8 (cross-call carryover). For every message with a 14-byte payload, whatever its type
  and bytes: its 22-byte frame delivered in calls of 2, 2, 3, 1 (the header) and 7, 7 (the
  payload) bytes to a fresh parser yields exactly that message, as the delivery in one
  22-byte call does, and leaves the parser as constructed.
\<close>

theorem C8_cross_call_carryover:
  assumes len: "messageLength (header m) = 14" and data: "length (messageData m) = 14"
  shows "parseChunks (chunksOf [2, 2, 3, 1, 7, 7] (encodeMessage m)) [] newParser
           = Some (Inr ([m], newParser)) \<and>
         parseChunks (chunksOf [22] (encodeMessage m)) [] newParser
           = Some (Inr ([m], newParser))"
proof -
  obtain h0 h1 h2 h3 h4 h5 h6 h7
    where hb: "encodeHeader (header m) = [h0, h1, h2, h3, h4, h5, h6, h7]"
    using length_encodeHeader [of "header m"] by (rule list8)
  from data obtain b1 b2 b3 b4 b5 b6 b7 b8 b9 b10 b11 b12 b13 b14
    where db: "messageData m = [b1, b2, b3, b4, b5, b6, b7, b8, b9, b10, b11, b12, b13, b14]"
    by (rule list14)
  have dec: "decodeHeader [h0, h1, h2, h3, h4, h5, h6, h7] = header m"
    using decode_encodeHeader [of "header m"] by (simp only: hb)
  have m: "\<lparr>header = header m,
            messageData = [b1, b2, b3, b4, b5, b6, b7, b8, b9, b10, b11, b12, b13, b14]\<rparr> = m"
    by (simp add: db [symmetric])
  show ?thesis
    by (simp add: encodeMessage_def hb db run_defs dec len m Clear_def)
qed

theorem C8_cross_call_carryover_witness:
  "messageLength (header s_message) = 14 \<and> length (messageData s_message) = 14 \<and>
   parseChunks (chunksOf [2, 2, 3, 1, 7, 7] (encodeMessage s_message)) [] newParser
     = Some (Inr ([s_message], newParser)) \<and>
   parseChunks (chunksOf [22] (encodeMessage s_message)) [] newParser
     = Some (Inr ([s_message], newParser))"
proof -
  have len: "messageLength (header s_message) = 14"
    by (simp add: s_message_def s_header_def)
  have data: "length (messageData s_message) = 14"
    by (simp add: s_message_def s_messageData_def)
  from C8_cross_call_carryover [OF len data] len data show ?thesis by simp
qed




text \<open>
  C5 (return value), as the code has it. Line 85 returns \<^verbatim>\<open>!messages.empty()\<close>: the flag
  says that the output vector is not empty on return. Every call that returns leaves the
  entries it found in place and appends behind them, and its flag is true exactly when
  the vector held an entry on entry or the call appended one. On a reachable parser the
  call does come to an end, with that result or at a read out of bounds.
\<close>

theorem C5_return_flag:
  "(ParseMessage rawData sz msgs p = Some (Inr (b, msgs', p')) \<longrightarrow>
      (\<exists>new. msgs' = msgs @ new \<and> (b \<longleftrightarrow> msgs \<noteq> [] \<or> new \<noteq> []))) \<and>
   (reachable p \<longrightarrow> (\<exists>r. ParseMessage rawData sz msgs p = Some r))"
proof (intro conjI impI)
  assume "ParseMessage rawData sz msgs p = Some (Inr (b, msgs', p'))"
  then show "\<exists>new. msgs' = msgs @ new \<and> (b \<longleftrightarrow> msgs \<noteq> [] \<or> new \<noteq> [])"
    by (rule ParseMessage_appends)
next
  assume "reachable p"
  then have "parserInv p" by (rule reachable_inv)
  then show "\<exists>r. ParseMessage rawData sz msgs p = Some r"
    by (rule ParseMessage_returns)
qed

theorem C5_return_flag_witness:
  "ParseMessage (encodeMessage s_message) 22 [emptyMessage] newParser
     = Some (Inr (True, [emptyMessage, s_message], newParser)) \<and>
   (\<exists>new. [emptyMessage, s_message] = [emptyMessage] @ new \<and>
      (True \<longleftrightarrow> [emptyMessage] \<noteq> [] \<or> new \<noteq> [])) \<and>
   reachable newParser \<and>
   (\<exists>r. ParseMessage (encodeMessage s_message) 22 [emptyMessage] newParser = Some r)"
proof -
  have run: "ParseMessage (encodeMessage s_message) 22 [emptyMessage] newParser
     = Some (Inr (True, [emptyMessage, s_message], newParser))"
    by code_simp
  note inst = C5_return_flag [of "encodeMessage s_message" 22 "[emptyMessage]" newParser True
      "[emptyMessage, s_message]" newParser]
  from inst run have "\<exists>new. [emptyMessage, s_message] = [emptyMessage] @ new \<and>
      (True \<longleftrightarrow> [emptyMessage] \<noteq> [] \<or> new \<noteq> [])"
    by blast
  moreover from inst reachable.fresh
  have "\<exists>r. ParseMessage (encodeMessage s_message) 22 [emptyMessage] newParser = Some r"
    by blast
  ultimately show ?thesis using run reachable.fresh by blast
qed

text \<open>
  C5 as stated fails when the vector already holds a message: a call on one header byte
  completes no message and returns true.
\<close>

theorem C5_true_without_new_message:
  "ParseMessage [1] 1 [s_message] newParser
     = Some (Inr (True, [s_message], newParser\<lparr>m_firstBuffer := [1]\<rparr>))"
  by code_simp

text \<open>
  C6 (malformed length), as the code has it. No maximum frame size exists in
  MessageParser.cpp and no header is rejected for its length. On every reachable parser
  with no header set, the call whose chunk is exactly the header bytes still missing (all
  8 on a fresh parser, fewer when earlier calls brought the first ones) appends nothing
  and returns the ordinary outcome with the decoded header pending, whatever
  \<open>messageLength\<close> it declares, up to \<open>2^32 - 1\<close>. On every reachable parser with a header
  pending, a non-empty chunk that leaves the payload buffer short of \<open>messageLength\<close> is
  appended to the payload buffer, with the same ordinary outcome. The first two parts are
  the fresh parser's case of the two that follow.
\<close>

theorem C6_no_length_check:
  "parseChunk (encodeHeader h) msgs newParser
     = Some (Inr (msgs \<noteq> [], msgs, awaitingPayload h)) \<and>
   (c \<noteq> [] \<longrightarrow> length c < unat (messageLength h) \<longrightarrow> length c < 2147483648 \<longrightarrow>
      parseChunk c msgs (awaitingPayload h)
        = Some (Inr (msgs \<noteq> [], msgs, (awaitingPayload h)\<lparr>m_secondBuffer := c\<rparr>))) \<and>
   (reachable p \<longrightarrow> \<not> m_isHeaderSet p \<longrightarrow> length hc = 8 - length (m_firstBuffer p) \<longrightarrow>
      parseChunk hc msgs p
        = Some (Inr (msgs \<noteq> [], msgs, awaitingPayload (decodeHeader (m_firstBuffer p @ hc))))) \<and>
   (reachable q \<longrightarrow> m_isHeaderSet q \<longrightarrow> pc \<noteq> [] \<longrightarrow>
      length (m_secondBuffer q) + length pc < unat (messageLength (m_header q)) \<longrightarrow>
      length pc < 2147483648 \<longrightarrow>
      parseChunk pc msgs q
        = Some (Inr (msgs \<noteq> [], msgs, q\<lparr>m_secondBuffer := m_secondBuffer q @ pc\<rparr>)))"
proof (intro conjI impI)
  show "parseChunk (encodeHeader h) msgs newParser
     = Some (Inr (msgs \<noteq> [], msgs, awaitingPayload h))"
    by (rule header_only_call)
next
  assume "c \<noteq> []" and "length c < unat (messageLength h)" and "length c < 2147483648"
  then show "parseChunk c msgs (awaitingPayload h)
        = Some (Inr (msgs \<noteq> [], msgs, (awaitingPayload h)\<lparr>m_secondBuffer := c\<rparr>))"
    by (rule payload_chunk_accumulates)
next
  assume r: "reachable p" and nset: "\<not> m_isHeaderSet p"
    and len: "length hc = 8 - length (m_firstBuffer p)"
  from reachable_inv [OF r] reachable_cursor [OF r] nset len
  show "parseChunk hc msgs p
        = Some (Inr (msgs \<noteq> [], msgs, awaitingPayload (decodeHeader (m_firstBuffer p @ hc))))"
    by (rule header_completing_call)
next
  assume r: "reachable q" and set: "m_isHeaderSet q" and pos: "pc \<noteq> []"
    and short: "length (m_secondBuffer q) + length pc < unat (messageLength (m_header q))"
    and small: "length pc < 2147483648"
  from reachable_inv [OF r] reachable_cursor [OF r] set pos short small
  show "parseChunk pc msgs q
        = Some (Inr (msgs \<noteq> [], msgs, q\<lparr>m_secondBuffer := m_secondBuffer q @ pc\<rparr>))"
    by (rule payload_call_accumulates)
qed

theorem C6_no_length_check_witness:
  "[97, 98 :: byte] \<noteq> [] \<and>
   length [97, 98 :: byte] < unat (messageLength \<lparr>messageType = 1, messageLength = 4294967295\<rparr>) \<and>
   length [97, 98 :: byte] < 2147483648 \<and>
   parseChunk (encodeHeader \<lparr>messageType = 1, messageLength = 4294967295\<rparr>) [] newParser
     = Some (Inr (False, [], awaitingPayload \<lparr>messageType = 1, messageLength = 4294967295\<rparr>)) \<and>
   parseChunk [97, 98] [] (awaitingPayload \<lparr>messageType = 1, messageLength = 4294967295\<rparr>)
     = Some (Inr (False, [],
         (awaitingPayload \<lparr>messageType = 1, messageLength = 4294967295\<rparr>)
           \<lparr>m_secondBuffer := [97, 98]\<rparr>)) \<and>
   reachable (newParser\<lparr>m_firstBuffer := [1, 0]\<rparr>) \<and>
   \<not> m_isHeaderSet (newParser\<lparr>m_firstBuffer := [1, 0]\<rparr>) \<and>
   length [0, 0, 255, 255, 255, 255 :: byte]
     = 8 - length (m_firstBuffer (newParser\<lparr>m_firstBuffer := [1, 0]\<rparr>)) \<and>
   parseChunk [0, 0, 255, 255, 255, 255] [] (newParser\<lparr>m_firstBuffer := [1, 0]\<rparr>)
     = Some (Inr (False, [], awaitingPayload \<lparr>messageType = 1, messageLength = 4294967295\<rparr>)) \<and>
   reachable ((awaitingPayload s_header)\<lparr>m_secondBuffer := [97, 98, 99]\<rparr>) \<and>
   m_isHeaderSet ((awaitingPayload s_header)\<lparr>m_secondBuffer := [97, 98, 99]\<rparr>) \<and>
   parseChunk [100, 101] [] ((awaitingPayload s_header)\<lparr>m_secondBuffer := [97, 98, 99]\<rparr>)
     = Some (Inr (False, [], (awaitingPayload s_header)\<lparr>m_secondBuffer := [97, 98, 99, 100, 101]\<rparr>))"
proof -
  let ?h = "\<lparr>messageType = 1, messageLength = 4294967295\<rparr>"
  let ?p = "newParser\<lparr>m_firstBuffer := [1, 0]\<rparr>"
  let ?q = "(awaitingPayload s_header)\<lparr>m_secondBuffer := [97, 98, 99]\<rparr>"
  have rp: "reachable ?p"
  proof (rule reachable.call [OF reachable.fresh])
    show "ParseMessage [1, 0] 2 [] newParser = Some (Inr (False, [], ?p))" by code_simp
  qed
  have ra: "reachable (awaitingPayload s_header)"
  proof (rule reachable.call [OF reachable.fresh])
    show "ParseMessage (encodeHeader s_header) 8 [] newParser
        = Some (Inr (False, [], awaitingPayload s_header))" by code_simp
  qed
  have rq: "reachable ?q"
  proof (rule reachable.call [OF ra])
    show "ParseMessage [97, 98, 99] 3 [] (awaitingPayload s_header)
        = Some (Inr (False, [], ?q))" by code_simp
  qed
  have np: "\<not> m_isHeaderSet ?p" by code_simp
  have lp: "length [0, 0, 255, 255, 255, 255 :: byte] = 8 - length (m_firstBuffer ?p)"
    by code_simp
  have dp: "decodeHeader (m_firstBuffer ?p @ [0, 0, 255, 255, 255, 255]) = ?h" by code_simp
  have sq: "m_isHeaderSet ?q" by code_simp
  have lq: "length (m_secondBuffer ?q) + length [100, 101 :: byte]
      < unat (messageLength (m_header ?q))" by code_simp
  have uq: "?q\<lparr>m_secondBuffer := m_secondBuffer ?q @ [100, 101]\<rparr>
      = (awaitingPayload s_header)\<lparr>m_secondBuffer := [97, 98, 99, 100, 101]\<rparr>" by code_simp
  note inst = C6_no_length_check [of ?h "[]" "[97, 98]" ?p "[0, 0, 255, 255, 255, 255]" ?q
      "[100, 101]"]
  from inst have a: "parseChunk (encodeHeader ?h) [] newParser
      = Some (Inr (False, [], awaitingPayload ?h))" by simp
  from inst have b: "parseChunk [97, 98] [] (awaitingPayload ?h)
      = Some (Inr (False, [], (awaitingPayload ?h)\<lparr>m_secondBuffer := [97, 98]\<rparr>))" by simp
  have pq: "[100, 101 :: byte] \<noteq> []" by simp
  have zq: "length [100, 101 :: byte] < 2147483648" by simp
  note c3 = inst [THEN conjunct2, THEN conjunct2, THEN conjunct1, rule_format, OF rp np lp]
  note c4 = inst [THEN conjunct2, THEN conjunct2, THEN conjunct2, rule_format, OF rq sq pq lq zq]
  from c3 have c: "parseChunk [0, 0, 255, 255, 255, 255] [] ?p
      = Some (Inr (False, [], awaitingPayload ?h))" by (simp only: dp) simp
  from c4 have d: "parseChunk [100, 101] [] ?q
      = Some (Inr (False, [], (awaitingPayload s_header)\<lparr>m_secondBuffer := [97, 98, 99, 100, 101]\<rparr>))"
    by (simp only: uq) simp
  have e: "[97, 98 :: byte] \<noteq> []" "length [97, 98 :: byte] < unat (messageLength ?h)"
    "length [97, 98 :: byte] < 2147483648" by simp_all
  from e a b rp np lp c rq sq d show ?thesis by (intro conjI)
qed

text \<open>
  C6 as stated fails on a header that declares the largest length there is, above any
  maximum a configuration could set: the call is not rejected.
\<close>

theorem C6_largest_length_accepted:
  "parseChunk (encodeHeader \<lparr>messageType = 1, messageLength = 4294967295\<rparr>) [] newParser
     = Some (Inr (False, [], awaitingPayload \<lparr>messageType = 1, messageLength = 4294967295\<rparr>))"
  by code_simp

text \<open>
  C9 (boundary state), as the code has it. Take a reachable parser that holds no partial
  header, and a chunk that ends exactly on a message boundary: the rest of the pending
  payload, if a header is pending, followed by complete frames, none or more, with a
  payload byte as the last byte of the chunk (the message it completes has a payload that
  is not empty). The call emits the pending message and the frames' messages in order and
  leaves exactly the constructed parser: both buffers empty, header cleared, no header
  set, first buffer active, cursor 0. A chunk that ends with the 8th header byte of a
  zero-length message is not such a chunk: its header stays set until the next call.
\<close>

theorem C9_boundary_state:
  assumes "reachable p" and "\<forall>m \<in> set ms. wellFormed m"
    and "length (tail @ encodeMessages ms) < 2147483648"
    and "if m_isHeaderSet p
         then length (m_secondBuffer p) + length tail = unat (messageLength (m_header p))
         else m_firstBuffer p = [] \<and> tail = []"
    and "if ms = [] then tail \<noteq> [] else messageData (last ms) \<noteq> []"
  shows "parseChunk (tail @ encodeMessages ms) msgs p
           = Some (Inr (True,
               msgs @ (if m_isHeaderSet p
                       then [\<lparr>header = m_header p, messageData = m_secondBuffer p @ tail\<rparr>]
                       else []) @ ms,
               newParser))"
proof (cases "m_isHeaderSet p")
  case True
  with assms(4) have fill: "length (m_secondBuffer p) + length tail
      = unat (messageLength (m_header p))" by simp
  from pending_then_frames_call [OF reachable_inv [OF assms(1)] reachable_cursor [OF assms(1)]
      True fill assms(2,3,5), of msgs] True
  show ?thesis by simp
next
  case False
  with assms(4) have e: "m_firstBuffer p = []" and t: "tail = []" by simp_all
  from reachable_inv [OF assms(1)] False have "m_activeIsFirst p" "m_secondBuffer p = []"
    "m_header p = Clear" by (simp_all add: parserInv_def)
  with e False reachable_cursor [OF assms(1)] have p: "p = newParser"
    by (cases p) (simp add: newParser_def)
  from assms(5) t have ne: "ms \<noteq> []" and last: "ms \<noteq> [] \<longrightarrow> messageData (last ms) \<noteq> []"
    by (auto split: if_splits)
  from assms(3) t have small: "length (encodeMessages ms) < 2147483648" by simp
  from frames_call [OF assms(2) small last, of msgs] ne False t p
  show ?thesis by simp
qed

theorem C9_boundary_state_witness:
  "reachable newParser \<and> wellFormed emptyMessage \<and> wellFormed s_message \<and>
   length ([] @ encodeMessages [emptyMessage, s_message]) < 2147483648 \<and>
   \<not> m_isHeaderSet newParser \<and> m_firstBuffer newParser = [] \<and>
   messageData (last [emptyMessage, s_message]) \<noteq> [] \<and>
   parseChunk (encodeMessages [emptyMessage, s_message]) [] newParser
     = Some (Inr (True, [emptyMessage, s_message], newParser)) \<and>
   reachable ((awaitingPayload s_header)\<lparr>m_secondBuffer := [97, 98, 99]\<rparr>) \<and>
   wellFormed shortMessage \<and>
   m_isHeaderSet ((awaitingPayload s_header)\<lparr>m_secondBuffer := [97, 98, 99]\<rparr>) \<and>
   length (m_secondBuffer ((awaitingPayload s_header)\<lparr>m_secondBuffer := [97, 98, 99]\<rparr>))
     + length (drop 3 s_messageData)
     = unat (messageLength (m_header ((awaitingPayload s_header)\<lparr>m_secondBuffer := [97, 98, 99]\<rparr>))) \<and>
   parseChunk (drop 3 s_messageData @ encodeMessages [shortMessage]) []
      ((awaitingPayload s_header)\<lparr>m_secondBuffer := [97, 98, 99]\<rparr>)
     = Some (Inr (True, [s_message, shortMessage], newParser))"
proof -
  let ?q = "(awaitingPayload s_header)\<lparr>m_secondBuffer := [97, 98, 99]\<rparr>"
  have ra: "reachable (awaitingPayload s_header)"
  proof (rule reachable.call [OF reachable.fresh])
    show "ParseMessage (encodeHeader s_header) 8 [] newParser
        = Some (Inr (False, [], awaitingPayload s_header))" by code_simp
  qed
  have rq: "reachable ?q"
  proof (rule reachable.call [OF ra])
    show "ParseMessage [97, 98, 99] 3 [] (awaitingPayload s_header)
        = Some (Inr (False, [], ?q))" by code_simp
  qed
  have w1: "wellFormed emptyMessage" by code_simp
  have w2: "wellFormed s_message" by code_simp
  have w3: "wellFormed shortMessage" by code_simp
  have l1: "length ([] @ encodeMessages [emptyMessage, s_message]) < 2147483648"
    by (simp add: encodeMessages_def length_encodeMessage emptyMessage_def s_message_def
        s_messageData_def)
  have n1: "\<not> m_isHeaderSet newParser" by code_simp
  have n2: "m_firstBuffer newParser = []" by code_simp
  have d1: "messageData (last [emptyMessage, s_message]) \<noteq> []" by code_simp
  have wf1: "\<forall>m \<in> set [emptyMessage, s_message]. wellFormed m" using w1 w2 by simp
  have h4: "if m_isHeaderSet newParser
      then length (m_secondBuffer newParser) + length ([] :: byte list)
             = unat (messageLength (m_header newParser))
      else m_firstBuffer newParser = [] \<and> ([] :: byte list) = []"
    using n1 n2 by simp
  have h5: "if [emptyMessage, s_message] = [] then ([] :: byte list) \<noteq> []
      else messageData (last [emptyMessage, s_message]) \<noteq> []"
    using d1 by simp
  from C9_boundary_state [OF reachable.fresh wf1 l1 h4 h5, of "[]"]
  have a: "parseChunk (encodeMessages [emptyMessage, s_message]) [] newParser
     = Some (Inr (True, [emptyMessage, s_message], newParser))"
    by (simp only: n1 if_False append_Nil)
  have sq: "m_isHeaderSet ?q" by code_simp
  have fq: "length (m_secondBuffer ?q) + length (drop 3 s_messageData)
     = unat (messageLength (m_header ?q))" by code_simp
  have l2: "length (drop 3 s_messageData @ encodeMessages [shortMessage]) < 2147483648"
    by (simp add: encodeMessages_def length_encodeMessage shortMessage_def s_messageData_def)
  have d2: "messageData (last [shortMessage]) \<noteq> []" by code_simp
  have m: "\<lparr>header = m_header ?q, messageData = m_secondBuffer ?q @ drop 3 s_messageData\<rparr>
     = s_message" by code_simp
  have wf2: "\<forall>m \<in> set [shortMessage]. wellFormed m" using w3 by simp
  have g4: "if m_isHeaderSet ?q
      then length (m_secondBuffer ?q) + length (drop 3 s_messageData)
             = unat (messageLength (m_header ?q))
      else m_firstBuffer ?q = [] \<and> drop 3 s_messageData = []"
    using sq fq by (simp only: if_True)
  have g5: "if [shortMessage] = [] then drop 3 s_messageData \<noteq> []
      else messageData (last [shortMessage]) \<noteq> []"
    using d2 by simp
  from C9_boundary_state [OF rq wf2 l2 g4 g5, of "[]"]
  have b: "parseChunk (drop 3 s_messageData @ encodeMessages [shortMessage]) [] ?q
     = Some (Inr (True, [s_message, shortMessage], newParser))"
    by (simp only: sq if_True m append_Nil append_Cons)
  from reachable.fresh w1 w2 l1 n1 n2 d1 a rq w3 sq fq b show ?thesis by (intro conjI)
qed

text \<open>
  C9 as stated fails on a chunk that is exactly one zero-length message: the call ends on
  the message boundary with the header still set.
\<close>

theorem C9_zero_length_boundary_not_fresh:
  "parseChunk (encodeMessage emptyMessage) [] newParser
     = Some (Inr (False, [], awaitingPayload (header emptyMessage))) \<and>
   m_isHeaderSet (awaitingPayload (header emptyMessage)) \<and>
   awaitingPayload (header emptyMessage) \<noteq> newParser"
  by code_simp

text \<open>
  C10 (termination), as the code has it. On a reachable parser the loop ends for every
  chunk and every \<open>size\<close>: the call returns, or stops at a read out of bounds. What every
  iteration moves is the place of the next read, or else the header flag or the fill of
  the buffer in use. The cursor is only part of it: for a \<open>size\<close> that fits \<^verbatim>\<open>int\<close> (below
  \<open>2^31\<close>), an iteration moves \<open>m_totalBytesParsed\<close> up, with one exception: when a
  zero-length header is pending at the start of the call, the first iteration emits that
  message and clears the header with the cursor where it was.
\<close>

theorem C10_loop_terminates:
  assumes "reachable p"
  shows "(\<exists>r. ParseMessage rawData sz msgs p = Some r) \<and>
         (parserInv (parser ls) \<longrightarrow> m_totalBytesParsed (parser ls) < sz \<longrightarrow>
            unat sz < 2147483648 \<longrightarrow> loopBody rawData sz ls = Inr ls' \<longrightarrow>
            m_totalBytesParsed (parser ls) < m_totalBytesParsed (parser ls') \<or>
            m_totalBytesParsed (parser ls') = m_totalBytesParsed (parser ls) \<and>
            m_isHeaderSet (parser ls) \<and> \<not> m_isHeaderSet (parser ls') \<and>
            messageLength (m_header (parser ls)) = 0)"
proof (intro conjI impI)
  from assms have "parserInv p" by (rule reachable_inv)
  then show "\<exists>r. ParseMessage rawData sz msgs p = Some r"
    by (rule ParseMessage_returns)
next
  assume inv: "parserInv (parser ls)" and lt: "m_totalBytesParsed (parser ls) < sz"
    and small: "unat sz < 2147483648" and run: "loopBody rawData sz ls = Inr ls'"
  show "m_totalBytesParsed (parser ls) < m_totalBytesParsed (parser ls') \<or>
            m_totalBytesParsed (parser ls') = m_totalBytesParsed (parser ls) \<and>
            m_isHeaderSet (parser ls) \<and> \<not> m_isHeaderSet (parser ls') \<and>
            messageLength (m_header (parser ls)) = 0"
    by (rule loopBody_progress [OF inv run lt small])
qed

theorem C10_loop_terminates_witness:
  "reachable newParser \<and>
   (\<exists>r. ParseMessage (encodeMessage s_message) 22 [] newParser = Some r) \<and>
   parserInv newParser \<and> m_totalBytesParsed newParser < (22 :: u32) \<and>
   unat (22 :: u32) < 2147483648 \<and>
   loopBody (encodeMessage s_message) 22
      \<lparr>parser = newParser, headerOffset = 0, messageOffset = 0, messages = []\<rparr>
     = Inr \<lparr>parser = newParser\<lparr>m_totalBytesParsed := 22\<rparr>, headerOffset = 8,
            messageOffset = 22, messages = [s_message]\<rparr> \<and>
   m_totalBytesParsed newParser < m_totalBytesParsed (newParser\<lparr>m_totalBytesParsed := 22\<rparr>)"
proof -
  let ?ls = "\<lparr>parser = newParser, headerOffset = 0, messageOffset = 0, messages = []\<rparr>"
  let ?ls' = "\<lparr>parser = newParser\<lparr>m_totalBytesParsed := 22\<rparr>, headerOffset = 8,
            messageOffset = 22, messages = [s_message]\<rparr>"
  have small: "unat (22 :: u32) < 2147483648" by simp
  have inv: "parserInv newParser" by code_simp
  have lt: "m_totalBytesParsed newParser < (22 :: u32)" by code_simp
  have body: "loopBody (encodeMessage s_message) 22 ?ls = Inr ?ls'" by code_simp
  have up: "m_totalBytesParsed newParser < m_totalBytesParsed (newParser\<lparr>m_totalBytesParsed := 22\<rparr>)"
    by code_simp
  from C10_loop_terminates [OF reachable.fresh, of "encodeMessage s_message" 22 "[]" ?ls ?ls']
  have "\<exists>r. ParseMessage (encodeMessage s_message) 22 [] newParser = Some r" by simp
  with small inv lt body up reachable.fresh show ?thesis by (intro conjI)
qed

text \<open>
  C10 as stated fails on its reason: with the header of a zero-length message pending
  from the call before, the first iteration on a 1-byte chunk emits the message, leaves
  the cursor at 0 and does not end the loop.
\<close>

theorem C10_iteration_without_progress:
  "parseChunk (encodeMessage emptyMessage) [] newParser
     = Some (Inr (False, [], awaitingPayload (header emptyMessage))) \<and>
   loopBody [5] 1 \<lparr>parser = awaitingPayload (header emptyMessage), headerOffset = 0,
                    messageOffset = 0, messages = []\<rparr>
     = Inr \<lparr>parser = newParser, headerOffset = 0, messageOffset = 0, messages = [emptyMessage]\<rparr> \<and>
   m_totalBytesParsed (awaitingPayload (header emptyMessage)) = 0 \<and>
   m_totalBytesParsed newParser = 0 \<and>
   loopCond 1 (Inr \<lparr>parser = newParser, headerOffset = 0, messageOffset = 0,
                     messages = [emptyMessage]\<rparr>)"
  by code_simp

end
